theory Spec2Isabelle
  imports Complex_Main "HOL-Library.Word" "HOL-Library.Sublist" "HOL-Library.AList"
begin

text \<open>
  A model of the tunnel programs of the OpsBot repository: the raw bridging sender
  (chunking and write queue, retry), the HTTP bridging listener (request parsing,
  forwarding, closing policy, heartbeat), the OpsBot server (connection registry,
  cleanup sweep) and the OpsBot client (retry, pending commands). Every definition
  follows the JavaScript function it is named after; what the environment decides
  (results of socket writes, of connection attempts, of pings, the clock) is an
  argument of the model.
\<close>

section \<open>Passthrough forwarder: relay to local socket\<close>

text \<open>
  The raw bridging sender keeps, per accepted local connection, a queue
  \<open>pendingWrites\<close> of buffers and a flag \<open>isWriting\<close>. A relay message is split
  into chunks when it is longer than \<open>MAX_BUFFER_SIZE\<close>, the chunks are pushed on
  the queue and \<open>processWriteQueue\<close> writes them to the local socket.
\<close>

type_synonym byte = "8 word"

type_synonym buffer = "byte list"

definition MAX_BUFFER_SIZE :: nat where
  "MAX_BUFFER_SIZE = 1024 * 1024"

text \<open>\<open>Buffer.slice(start, end)\<close> for \<open>start \<le> end \<le> length\<close>.\<close>

definition slice :: "buffer \<Rightarrow> nat \<Rightarrow> nat \<Rightarrow> buffer" where
  "slice data start fin = take (fin - start) (drop start data)"

text \<open>
  The loop \<open>for (let i = 0; i < data.length; i += chunkSize)\<close> of the message
  handler, with \<open>chunkSize = MAX_BUFFER_SIZE / 2\<close>; every round pushes one slice.
\<close>

function pushChunks :: "buffer \<Rightarrow> nat \<Rightarrow> buffer list \<Rightarrow> buffer list" where
  "pushChunks data i pw =
     (if i < length data
      then pushChunks data (i + MAX_BUFFER_SIZE div 2)
             (pw @ [slice data i (min (i + MAX_BUFFER_SIZE div 2) (length data))])
      else pw)"
  by pat_completeness auto
termination
  by (relation "measure (\<lambda>(data, i, pw). length data - i)")
     (auto simp: MAX_BUFFER_SIZE_def)

declare pushChunks.simps [simp del]

text \<open>The branch of the message handler that fills the queue.\<close>

definition enqueueMessage :: "buffer list \<Rightarrow> buffer \<Rightarrow> buffer list" where
  "enqueueMessage pw data =
     (if length data > MAX_BUFFER_SIZE then pushChunks data 0 pw else pw @ [data])"










subsection \<open>The write queue\<close>

text \<open>
  \<open>socket.write\<close> returns \<open>true\<close>, returns \<open>false\<close> (the data is taken, the
  caller is asked to wait for \<open>drain\<close>) or throws (nothing is taken);
  \<open>processWriteQueue\<close> has a branch for each. The outcomes of the successive writes
  are an input of the model, \<open>writeOutcomes\<close>; once the list is used up every write
  returns \<open>true\<close>. \<open>written\<close> is the byte stream the socket has taken so far.
  \<open>drainOnce\<close> holds the listeners registered with \<open>socket.once('drain', ...)\<close>,
  \<open>immediates\<close> counts the pending \<open>setImmediate(processWriteQueue)\<close> callbacks.
\<close>

datatype write_outcome = WriteTrue | WriteFalse | WriteThrows

datatype drain_listener = DrainCall | DrainImmediate

record sender_session =
  pendingWrites :: "buffer list"
  isWriting :: bool
  written :: buffer
  drainOnce :: "drain_listener list"
  immediates :: nat
  writeOutcomes :: "write_outcome list"

definition socket_write :: "sender_session \<Rightarrow> buffer \<Rightarrow> write_outcome \<times> sender_session" where
  "socket_write s data =
     (case writeOutcomes s of
        [] \<Rightarrow> (WriteTrue, s\<lparr>written := written s @ data\<rparr>)
      | r # rs \<Rightarrow>
          (r, s\<lparr>writeOutcomes := rs,
                 written := (if r = WriteThrows then written s else written s @ data)\<rparr>))"

lemma socket_write_pending [simp]:
  "pendingWrites (snd (socket_write s data)) = pendingWrites s"
  by (simp add: socket_write_def split: list.split)

text \<open>
  \<open>processWriteQueue\<close>, statement by statement: the guard, \<open>isWriting = true\<close>,
  \<open>pendingWrites.shift()\<close>, the first \<open>try\<close> block (which calls
  \<open>processWriteQueue\<close> itself after a write that returned \<open>true\<close> or threw), and
  the second \<open>try\<close> block, which writes the same \<open>data\<close> again and defers the next
  round with \<open>setImmediate\<close>.
\<close>

function processWriteQueue :: "sender_session \<Rightarrow> sender_session" where
  "processWriteQueue s =
     (if pendingWrites s = [] \<or> isWriting s then s
      else
        let data = hd (pendingWrites s);
            s1 = s\<lparr>isWriting := True, pendingWrites := tl (pendingWrites s)\<rparr>;
            w1 = socket_write s1 data;
            s2 = (case fst w1 of
                    WriteFalse \<Rightarrow> (snd w1)\<lparr>drainOnce := drainOnce (snd w1) @ [DrainCall]\<rparr>
                  | WriteTrue \<Rightarrow> processWriteQueue ((snd w1)\<lparr>isWriting := False\<rparr>)
                  | WriteThrows \<Rightarrow> processWriteQueue ((snd w1)\<lparr>isWriting := False\<rparr>));
            w2 = socket_write s2 data
        in (case fst w2 of
              WriteFalse \<Rightarrow> (snd w2)\<lparr>drainOnce := drainOnce (snd w2) @ [DrainImmediate]\<rparr>
            | WriteTrue \<Rightarrow>
                (snd w2)\<lparr>isWriting := False, immediates := Suc (immediates (snd w2))\<rparr>
            | WriteThrows \<Rightarrow>
                (snd w2)\<lparr>isWriting := False, immediates := Suc (immediates (snd w2))\<rparr>))"
  by pat_completeness auto
termination
  by (relation "measure (\<lambda>s. length (pendingWrites s))") auto

declare processWriteQueue.simps [simp del]

text \<open>The relay message handler: fill the queue, then \<open>processWriteQueue()\<close>.\<close>

definition onMessage :: "sender_session \<Rightarrow> buffer \<Rightarrow> sender_session" where
  "onMessage s data =
     processWriteQueue (s\<lparr>pendingWrites := enqueueMessage (pendingWrites s) data\<rparr>)"

text \<open>
  The socket's \<open>drain\<close> event runs the \<open>once\<close> listeners registered so far, in
  order of registration, each removed before it runs; a pending immediate runs
  \<open>processWriteQueue\<close>.
\<close>

fun runDrain :: "drain_listener list \<Rightarrow> sender_session \<Rightarrow> sender_session" where
  "runDrain [] s = s"
| "runDrain (DrainCall # ls) s = runDrain ls (processWriteQueue (s\<lparr>isWriting := False\<rparr>))"
| "runDrain (DrainImmediate # ls) s =
     runDrain ls (s\<lparr>isWriting := False, immediates := Suc (immediates s)\<rparr>)"

definition onDrain :: "sender_session \<Rightarrow> sender_session" where
  "onDrain s = runDrain (drainOnce s) (s\<lparr>drainOnce := []\<rparr>)"

definition onImmediate :: "sender_session \<Rightarrow> sender_session" where
  "onImmediate s =
     (if immediates s = 0 then s
      else processWriteQueue (s\<lparr>immediates := immediates s - 1\<rparr>))"

text \<open>A session right after \<open>setupWebSocketHandlers\<close>: nothing queued, nothing written.\<close>

definition idle :: "write_outcome list \<Rightarrow> sender_session" where
  "idle outcomes =
     \<lparr>pendingWrites = [], isWriting = False, written = [], drainOnce = [],
      immediates = 0, writeOutcomes = outcomes\<rparr>"

lemma processWriteQueue_empty:
  "pendingWrites s = [] \<Longrightarrow> processWriteQueue s = s"
  by (subst processWriteQueue.simps) simp

lemma processWriteQueue_one:
  "processWriteQueue
     \<lparr>pendingWrites = [data], isWriting = False, written = [], drainOnce = [],
      immediates = 0, writeOutcomes = []\<rparr>
   = \<lparr>pendingWrites = [], isWriting = False, written = data @ data, drainOnce = [],
      immediates = 1, writeOutcomes = []\<rparr>"
  by (subst processWriteQueue.simps)
     (simp add: socket_write_def processWriteQueue_empty Let_def)

text \<open>
  With a socket that takes every write, a message below the split threshold reaches
  the socket twice: once from each \<open>try\<close> block.
\<close>

lemma onMessage_writes_twice:
  "length data \<le> MAX_BUFFER_SIZE \<Longrightarrow>
     written (onMessage (idle []) data) = data @ data"
  by (simp add: onMessage_def enqueueMessage_def idle_def processWriteQueue_one)

text \<open>
  The same when the socket asks to wait on both writes: both are taken, and the
  \<open>drain\<close> event finds the queue empty.
\<close>

lemma onMessage_blocked_writes_twice:
  "length data \<le> MAX_BUFFER_SIZE \<Longrightarrow>
     written (onDrain (onMessage (idle [WriteFalse, WriteFalse]) data)) = data @ data"
  by (simp add: onMessage_def enqueueMessage_def idle_def onDrain_def
        processWriteQueue.simps [of "\<lparr>pendingWrites = [data], isWriting = False,
          written = [], drainOnce = [], immediates = 0,
          writeOutcomes = [WriteFalse, WriteFalse]\<rparr>"]
        socket_write_def processWriteQueue_empty Let_def)

text \<open>
  C1 says that for every byte sequence shorter than the chunk threshold arriving as
  a relay message, the bytes written to the local socket are exactly that sequence,
  each byte once and in order. The code, run on the one-byte message \<open>0x41\<close> with a
  socket that takes every write, writes \<open>0x41 0x41\<close>; and with two buffers \<open>[1]\<close>,
  \<open>[2]\<close> waiting in the queue it writes \<open>1 2 2 1\<close>.
\<close>

theorem processWriteQueue_duplicates:
  "written (onMessage (idle []) [0x41]) = [0x41, 0x41]
   \<and> written (onMessage (idle []) [0x41]) \<noteq> [0x41]
   \<and> written (processWriteQueue ((idle [])\<lparr>pendingWrites := [[1], [2]]\<rparr>)) = [1, 2, 2, 1]"
proof -
  have one: "written (onMessage (idle []) [0x41]) = [0x41, 0x41]"
    by (simp add: onMessage_def enqueueMessage_def idle_def processWriteQueue_one
          MAX_BUFFER_SIZE_def)
  have inner: "processWriteQueue
       \<lparr>pendingWrites = [[2]], isWriting = False, written = [1], drainOnce = [],
        immediates = 0, writeOutcomes = []\<rparr>
     = \<lparr>pendingWrites = [], isWriting = False, written = [1, 2, 2], drainOnce = [],
        immediates = 1, writeOutcomes = []\<rparr>"
    by (subst processWriteQueue.simps)
       (simp add: socket_write_def processWriteQueue_empty Let_def)
  have two: "written (processWriteQueue ((idle [])\<lparr>pendingWrites := [[1], [2]]\<rparr>))
      = [1, 2, 2, 1]"
    by (subst processWriteQueue.simps)
       (simp add: idle_def socket_write_def inner Let_def)
  from one two show ?thesis by simp
qed

section \<open>Retry schedulers\<close>

text \<open>
  What a scheduler does is recorded as a trace: \<open>Attempt\<close> for a connection attempt,
  \<open>Wait d\<close> for a \<open>setTimeout\<close> of \<open>d\<close> milliseconds before the next one. Delays
  are rationals: the JavaScript numbers that occur (200 times powers of 1.5, capped
  at 5000) are dyadic fractions that a double holds exactly.
\<close>

datatype event = Attempt | Wait rat

subsection \<open>The client's \<open>connectWithRetry\<close>\<close>

text \<open>
  One round of the \<open>while\<close> loop awaits \<open>testConnectivity\<close> and then returns the
  promise of the WebSocket connection without awaiting it. A rejection of the
  awaited connectivity test is caught by the \<open>catch\<close> block, which waits and
  retries; the returned promise settles outside the \<open>try\<close>, so its rejection goes
  to the caller as it is. \<open>env\<close> gives the outcome of each round.
\<close>

datatype attempt_outcome = ConnectivityFails | RelayRejects | RelayResolves

datatype connect_result = Connected | Rejected | Exhausted | Undefined

definition initialRetryDelay :: rat where "initialRetryDelay = 200"
definition maxRetryCount :: nat where "maxRetryCount = 10"
definition maxRetryDelay :: rat where "maxRetryDelay = 5000"

function connectLoop ::
  "(nat \<Rightarrow> attempt_outcome) \<Rightarrow> nat \<Rightarrow> rat \<Rightarrow> event list \<times> connect_result" where
  "connectLoop env retryCount delay =
     (if retryCount < maxRetryCount then
        (case env retryCount of
           RelayResolves \<Rightarrow> ([Attempt], Connected)
         | RelayRejects \<Rightarrow> ([Attempt], Rejected)
         | ConnectivityFails \<Rightarrow>
             if retryCount \<ge> maxRetryCount - 1 then ([Attempt], Exhausted)
             else
               let rest = connectLoop env (retryCount + 1) (min (delay * 1.5) maxRetryDelay)
               in (Attempt # Wait delay # fst rest, snd rest))
      else ([], Undefined))"
  by pat_completeness auto
termination
  by (relation "measure (\<lambda>(env, retryCount, delay). maxRetryCount - retryCount)") auto

declare connectLoop.simps [simp del]

definition connectWithRetry :: "(nat \<Rightarrow> attempt_outcome) \<Rightarrow> event list \<times> connect_result" where
  "connectWithRetry env = connectLoop env 0 initialRetryDelay"

text \<open>The delay sequence in the spec's words: \<open>d\<^sub>1 = 200\<close>, \<open>d\<^bsub>n+1\<^esub> = min (d\<^sub>n * 1.5) 5000\<close>.\<close>

primrec specDelay :: "nat \<Rightarrow> rat" where
  "specDelay 0 = 200"
| "specDelay (Suc n) = min (specDelay n * 1.5) 5000"

text \<open>The same recurrence from any start value, for the induction over the loop.\<close>

primrec delayFrom :: "rat \<Rightarrow> nat \<Rightarrow> rat" where
  "delayFrom d 0 = d"
| "delayFrom d (Suc n) = min (delayFrom d n * 1.5) 5000"

lemma delayFrom_shift_n: "delayFrom (min (d * 3 / 2) 5000) n = delayFrom d (Suc n)"
  by (induction n) simp_all

lemma delayFrom_shift: "delayFrom (min (d * 3 / 2) 5000) = (\<lambda>i. delayFrom d (Suc i))"
  by (rule ext) (rule delayFrom_shift_n)

lemma specDelay_delayFrom: "specDelay n = delayFrom 200 n"
  by (induction n) simp_all

definition rounds :: "(nat \<Rightarrow> rat) \<Rightarrow> nat \<Rightarrow> event list" where
  "rounds d k = concat (map (\<lambda>i. [Attempt, Wait (d i)]) [0..<k])"

lemma rounds_Suc_front: "rounds d (Suc k) = Attempt # Wait (d 0) # rounds (\<lambda>i. d (Suc i)) k"
  by (simp add: rounds_def upt_conv_Cons map_Suc_upt [symmetric] del: upt_Suc) (simp add: comp_def)

lemma connectLoop_connected:
  "\<forall>i<k. env (r + i) = ConnectivityFails \<Longrightarrow> r + k < 10 \<Longrightarrow> env (r + k) = RelayResolves \<Longrightarrow>
     connectLoop env r d = (rounds (delayFrom d) k @ [Attempt], Connected)"
proof (induction k arbitrary: r d)
  case 0
  then show ?case
    by (subst connectLoop.simps) (simp add: maxRetryCount_def rounds_def)
next
  case (Suc k)
  from Suc.prems have fail: "env r = ConnectivityFails" by (metis add.right_neutral zero_less_Suc)
  have "connectLoop env (Suc r) (min (d * 1.5) 5000)
          = (rounds (delayFrom (min (d * 1.5) 5000)) k @ [Attempt], Connected)"
    using Suc.prems by (intro Suc.IH) auto
  with fail Suc.prems(2) show ?case
    by (subst connectLoop.simps)
       (simp add: maxRetryCount_def maxRetryDelay_def rounds_Suc_front delayFrom_shift
             del: delayFrom.simps(2))
qed

lemma connectLoop_exhausted:
  "\<forall>i<k. env (r + i) = ConnectivityFails \<Longrightarrow> r + k = 10 \<Longrightarrow> 0 < k \<Longrightarrow>
     connectLoop env r d = (rounds (delayFrom d) (k - 1) @ [Attempt], Exhausted)"
proof (induction k arbitrary: r d)
  case 0
  then show ?case by simp
next
  case (Suc k)
  from Suc.prems have fail: "env r = ConnectivityFails" by (metis add.right_neutral zero_less_Suc)
  show ?case
  proof (cases "k = 0")
    case True
    with Suc.prems fail show ?thesis
      by (subst connectLoop.simps) (simp add: maxRetryCount_def rounds_def)
  next
    case False
    have "connectLoop env (Suc r) (min (d * 1.5) 5000)
          = (rounds (delayFrom (min (d * 1.5) 5000)) (k - 1) @ [Attempt], Exhausted)"
      using Suc.prems False by (intro Suc.IH) auto
    moreover from False obtain j where "k = Suc j" by (cases k) auto
    ultimately show ?thesis using fail Suc.prems(2)
      by (subst connectLoop.simps)
         (simp add: maxRetryCount_def maxRetryDelay_def rounds_Suc_front delayFrom_shift
               del: delayFrom.simps(2))
  qed
qed


subsection \<open>The passthrough sender's \<open>connectWithRetry\<close>\<close>

text \<open>
  The sender calls \<open>WebSocket.relayedConnect\<close>; the attempt ends in the connect
  callback, in the error callback or in an exception. Both failure paths compute the
  delay from \<open>retryCount\<close> and retry while \<open>retryCount < maxRetries\<close>.
\<close>

datatype relay_outcome = RelayConnects | RelayErrors | RelayThrows

datatype sender_result = HandlersSetUp | GaveUpAfterError | GaveUpAfterException

definition retryDelay :: "nat \<Rightarrow> rat" where
  "retryDelay retryCount =
     (if retryCount = 0 then 200 else min (1.5 ^ retryCount * 500) 5000)"

function sender_connectWithRetry ::
  "(nat \<Rightarrow> relay_outcome) \<Rightarrow> nat \<Rightarrow> nat \<Rightarrow> event list \<times> sender_result" where
  "sender_connectWithRetry env retryCount maxRetries =
     (case env retryCount of
        RelayConnects \<Rightarrow> ([Attempt], HandlersSetUp)
      | RelayErrors \<Rightarrow>
          if retryCount < maxRetries then
            let rest = sender_connectWithRetry env (retryCount + 1) maxRetries
            in (Attempt # Wait (retryDelay retryCount) # fst rest, snd rest)
          else ([Attempt], GaveUpAfterError)
      | RelayThrows \<Rightarrow>
          if retryCount < maxRetries then
            let rest = sender_connectWithRetry env (retryCount + 1) maxRetries
            in (Attempt # Wait (retryDelay retryCount) # fst rest, snd rest)
          else ([Attempt], GaveUpAfterException))"
  by pat_completeness auto
termination
  by (relation "measure (\<lambda>(env, retryCount, maxRetries). Suc maxRetries - retryCount)") auto

declare sender_connectWithRetry.simps [simp del]

lemma sender_connectWithRetry_trace:
  "\<forall>i. r \<le> i \<and> i \<le> m \<longrightarrow> env i \<noteq> RelayConnects \<Longrightarrow> r \<le> m \<Longrightarrow>
     fst (sender_connectWithRetry env r m)
       = concat (map (\<lambda>i. [Attempt, Wait (retryDelay i)]) [r..<m]) @ [Attempt]"
proof (induction env r m rule: sender_connectWithRetry.induct)
  case (1 env r m)
  show ?case
  proof (cases "r < m")
    case True
    with 1 have "fst (sender_connectWithRetry env (r + 1) m)
        = concat (map (\<lambda>i. [Attempt, Wait (retryDelay i)]) [r + 1..<m]) @ [Attempt]"
      by (cases "env r") auto
    moreover from 1 have "env r \<noteq> RelayConnects" by simp
    ultimately show ?thesis using True
      by (subst sender_connectWithRetry.simps)
         (simp add: upt_conv_Cons split: relay_outcome.split)
  next
    case False
    moreover from 1 have "env r \<noteq> RelayConnects" by simp
    ultimately show ?thesis using 1
      by (subst sender_connectWithRetry.simps) (simp split: relay_outcome.split)
  qed
qed

text \<open>
  C2, as amended. In the client, while the connectivity test of every attempt
  fails, the waits between attempts are \<open>d\<^sub>1 = 200\<close>, \<open>d\<^bsub>n+1\<^esub> = min (d\<^sub>n * 1.5) 5000\<close>;
  an attempt that connects after \<open>k < 10\<close> such failures ends the loop, and after 10
  failures the scheduler fails for good, having made 10 attempts and 9 waits. In the
  passthrough sender the wait after the failure of attempt \<open>retryCount\<close> is 200 for
  the first and \<open>min (1.5 ^ retryCount * 500) 5000\<close> afterwards, and the sender
  gives up after the first attempt and \<open>maxRetries = 10\<close> retries have failed.
\<close>

theorem retry_backoff:
  "((\<forall>i<k. env i = ConnectivityFails) \<and> k < 10 \<and> env k = RelayResolves \<longrightarrow>
      connectWithRetry env = (rounds specDelay k @ [Attempt], Connected))
   \<and> ((\<forall>i<10. env i = ConnectivityFails) \<longrightarrow>
      connectWithRetry env = (rounds specDelay 9 @ [Attempt], Exhausted))
   \<and> ((\<forall>i\<le>10. senv i \<noteq> RelayConnects) \<longrightarrow>
      fst (sender_connectWithRetry senv 0 10) = rounds retryDelay 10 @ [Attempt])"
proof -
  have sd: "delayFrom initialRetryDelay = specDelay"
    by (rule ext) (simp add: specDelay_delayFrom initialRetryDelay_def)
  have "connectWithRetry env = (rounds specDelay k @ [Attempt], Connected)"
    if "\<forall>i<k. env i = ConnectivityFails" "k < 10" "env k = RelayResolves"
    using that connectLoop_connected [of k env 0 initialRetryDelay]
    by (simp add: connectWithRetry_def sd)
  moreover have "connectWithRetry env = (rounds specDelay 9 @ [Attempt], Exhausted)"
    if "\<forall>i<10. env i = ConnectivityFails"
    using that connectLoop_exhausted [of 10 env 0 initialRetryDelay]
    by (simp add: connectWithRetry_def sd)
  moreover have "fst (sender_connectWithRetry senv 0 10) = rounds retryDelay 10 @ [Attempt]"
    if "\<forall>i\<le>10. senv i \<noteq> RelayConnects"
    using that sender_connectWithRetry_trace [of 0 10 senv]
    by (simp add: rounds_def)
  ultimately show ?thesis by blast
qed

lemma upt_10: "[0..<10] = [0, 1, 2, 3, 4, 5, 6, 7, 8, 9]" and upt_9: "[0..<9] = [0, 1, 2, 3, 4, 5, 6, 7, 8]"
  and upt_2: "[0..<2] = [0, 1]"
  by (simp_all add: upt_rec)

lemma specDelay_values:
  "map specDelay [0, 1, 2, 3, 4, 5, 6, 7, 8] = [200, 300, 450, 675, 1012.5, 1518.75, 2278.125, 3417.1875, 5000]"
  by (simp add: eval_nat_numeral)

lemma retryDelay_values:
  "map retryDelay [0, 1, 2, 3, 4, 5, 6, 7, 8, 9] = [200, 750, 1125, 1687.5, 2531.25, 3796.875, 5000, 5000, 5000, 5000]"
  by (simp add: retryDelay_def power_divide)

theorem retry_backoff_witness:
  "connectWithRetry (\<lambda>i. if i < 2 then ConnectivityFails else RelayResolves)
     = ([Attempt, Wait 200, Attempt, Wait 300, Attempt], Connected)
   \<and> connectWithRetry (\<lambda>i. ConnectivityFails)
     = ([Attempt, Wait 200, Attempt, Wait 300, Attempt, Wait 450, Attempt, Wait 675,
         Attempt, Wait 1012.5, Attempt, Wait 1518.75, Attempt, Wait 2278.125,
         Attempt, Wait 3417.1875, Attempt, Wait 5000, Attempt], Exhausted)
   \<and> fst (sender_connectWithRetry (\<lambda>i. RelayErrors) 0 10)
     = [Attempt, Wait 200, Attempt, Wait 750, Attempt, Wait 1125, Attempt, Wait 1687.5,
        Attempt, Wait 2531.25, Attempt, Wait 3796.875, Attempt, Wait 5000,
        Attempt, Wait 5000, Attempt, Wait 5000, Attempt, Wait 5000, Attempt]"
  using retry_backoff [of 2 "\<lambda>i. if i < 2 then ConnectivityFails else RelayResolves" "\<lambda>i. RelayErrors"]
        retry_backoff [of 0 "\<lambda>i. ConnectivityFails" "\<lambda>i. RelayErrors"]
  by (simp add: rounds_def upt_10 upt_9 upt_2 eval_nat_numeral retryDelay_def power_divide)


text \<open>
  C2, as stated, fails in the passthrough sender: its second wait is 750 ms, not
  \<open>min (200 * 1.5) 5000 = 300\<close>, and with every attempt failing it makes 11 attempts.
\<close>

theorem sender_backoff_counterexample:
  "sender_connectWithRetry (\<lambda>i. RelayErrors) 0 10
     = ([Attempt, Wait 200, Attempt, Wait 750, Attempt, Wait 1125, Attempt, Wait 1687.5,
         Attempt, Wait 2531.25, Attempt, Wait 3796.875, Attempt, Wait 5000,
         Attempt, Wait 5000, Attempt, Wait 5000, Attempt, Wait 5000, Attempt],
        GaveUpAfterError)
   \<and> retryDelay 1 \<noteq> min (retryDelay 0 * 1.5) 5000
   \<and> length (filter (\<lambda>e. e = Attempt) (fst (sender_connectWithRetry (\<lambda>i. RelayErrors) 0 10)))
       = 11"
  by (simp add: sender_connectWithRetry.simps retryDelay_def power_divide Let_def)

section \<open>Frame translator: HTTP bridging\<close>

text \<open>
  The listener of the HTTP bridge turns each relay message into a request to the
  target server. A relay message is a \<open>Buffer\<close> of bytes (a binary frame) or a
  string (a text frame). A JavaScript string is represented by its UTF-8 encoding,
  a list of characters that are the bytes; the separators of the parser and the
  patterns of the close policy are ASCII, so that \<open>split\<close>, \<open>endsWith\<close> and
  \<open>includes\<close> act on the encoding as they act on the string.
\<close>

subsection \<open>Decoding the message\<close>

text \<open>
  \<open>data.toString('utf8')\<close> on a \<open>Buffer\<close> decodes the bytes as UTF-8 and replaces
  every maximal ill-formed part by U+FFFD, whose encoding is \<open>REPLACEMENT\<close>. In
  \<open>utf8Decode\<close>, \<open>needed\<close> is the number of continuation bytes still expected,
  \<open>lower\<close> and \<open>upper\<close> bound the next one, and \<open>seen\<close> holds the bytes read of
  the current character; a byte that cannot continue the character is read again as
  the start of the next one. On a string, \<open>toString\<close> returns the string, and
  \<open>data.length\<close> is positive exactly when the message is not empty.
\<close>

datatype relay_data = Buffer string | Text string

definition REPLACEMENT :: string where
  "REPLACEMENT = [CHR 0xEF, CHR 0xBF, CHR 0xBD]"

function utf8Decode :: "nat \<Rightarrow> nat \<Rightarrow> nat \<Rightarrow> string \<Rightarrow> string \<Rightarrow> string" where
  "utf8Decode needed lower upper seen [] = (if needed = 0 then [] else REPLACEMENT)"
| "utf8Decode needed lower upper seen (b # bs) =
     (if needed = 0 then
        (if (of_char b :: nat) \<le> 0x7F then b # utf8Decode 0 0x80 0xBF [] bs
         else if 0xC2 \<le> (of_char b :: nat) \<and> (of_char b :: nat) \<le> 0xDF then
           utf8Decode 1 0x80 0xBF [b] bs
         else if 0xE0 \<le> (of_char b :: nat) \<and> (of_char b :: nat) \<le> 0xEF then
           utf8Decode 2 (if (of_char b :: nat) = 0xE0 then 0xA0 else 0x80)
             (if (of_char b :: nat) = 0xED then 0x9F else 0xBF) [b] bs
         else if 0xF0 \<le> (of_char b :: nat) \<and> (of_char b :: nat) \<le> 0xF4 then
           utf8Decode 3 (if (of_char b :: nat) = 0xF0 then 0x90 else 0x80)
             (if (of_char b :: nat) = 0xF4 then 0x8F else 0xBF) [b] bs
         else REPLACEMENT @ utf8Decode 0 0x80 0xBF [] bs)
      else if (of_char b :: nat) < lower \<or> upper < (of_char b :: nat) then
        REPLACEMENT @ utf8Decode 0 0x80 0xBF [] (b # bs)
      else if needed = 1 then seen @ [b] @ utf8Decode 0 0x80 0xBF [] bs
      else utf8Decode (needed - 1) 0x80 0xBF (seen @ [b]) bs)"
  by pat_completeness auto
termination
  by (relation "measures [\<lambda>(needed, lower, upper, seen, bs). length bs,
                          \<lambda>(needed, lower, upper, seen, bs). needed]") auto

declare utf8Decode.simps [simp del]

definition toStringUtf8 :: "relay_data \<Rightarrow> string" where
  "toStringUtf8 data =
     (case data of Buffer bytes \<Rightarrow> utf8Decode 0 0x80 0xBF [] bytes | Text s \<Rightarrow> s)"

definition lengthPositive :: "relay_data \<Rightarrow> bool" where
  "lengthPositive data = (case data of Buffer bytes \<Rightarrow> bytes \<noteq> [] | Text s \<Rightarrow> s \<noteq> [])"

subsection \<open>JavaScript strings\<close>

text \<open>
  \<open>text.split(sep)\<close> for a string separator: the pieces between the successive
  leftmost occurrences of \<open>sep\<close>; a text without an occurrence is one piece, the
  empty text included. \<open>cur\<close> holds the piece being read, reversed.
\<close>

function splitAux :: "string \<Rightarrow> string \<Rightarrow> string \<Rightarrow> string list" where
  "splitAux sep cur [] = [rev cur]"
| "splitAux sep cur (c # cs) =
     (if sep \<noteq> [] \<and> prefix sep (c # cs)
      then rev cur # splitAux sep [] (drop (length sep) (c # cs))
      else splitAux sep (c # cur) cs)"
  by pat_completeness auto
termination
  by (relation "measure (\<lambda>(sep, cur, str). length str)") (auto simp: neq_Nil_conv)

definition jsSplit :: "string \<Rightarrow> string \<Rightarrow> string list" where
  "jsSplit str sep = (if sep = [] then map (\<lambda>c. [c]) str else splitAux sep [] str)"

definition CRLF :: string where
  "CRLF = [CHR 0x0D, CHR 0x0A]"

text \<open>
  Reading an array element: \<open>undefined\<close> past the end. \<open>v || d\<close> for a string or
  \<open>undefined\<close>: the empty string and \<open>undefined\<close> are falsy.
\<close>

definition nth_opt :: "'a list \<Rightarrow> nat \<Rightarrow> 'a option" where
  "nth_opt xs i = (if i < length xs then Some (xs ! i) else None)"

definition orDefault :: "string option \<Rightarrow> string \<Rightarrow> string" where
  "orDefault v d = (case v of None \<Rightarrow> d | Some s \<Rightarrow> if s = [] then d else s)"

subsection \<open>Parsing the request\<close>

text \<open>
  The field \<open>method\<close> of the source is \<open>httpMethod\<close> here. The headers are the own
  properties of the object \<open>headers\<close>: a map from keys to values.
\<close>

record httpRequest =
  httpMethod :: string
  path :: string
  headers :: "string \<rightharpoonup> string"

text \<open>
  \<open>headers[key] = value\<close> on an object literal sets the own property \<open>key\<close>. The
  key \<open>__proto__\<close> is the accessor of \<open>Object.prototype\<close>; assigning a string to
  it changes nothing.
\<close>

definition setProperty ::
  "(string \<rightharpoonup> string) \<Rightarrow> string \<Rightarrow> string \<Rightarrow> (string \<rightharpoonup> string)" where
  "setProperty obj key v = (if key = ''__proto__'' then obj else obj(key \<mapsto> v))"

text \<open>
  The body of the header loop: \<open>const [key, value] = line.split(': ')\<close> and the
  test \<open>key && value\<close>.
\<close>

definition headerLine :: "string \<Rightarrow> (string \<times> string) option" where
  "headerLine line =
     (let kv = jsSplit line '': '' in
      case (nth_opt kv 0, nth_opt kv 1) of
        (Some key, Some v) \<Rightarrow> if key \<noteq> [] \<and> v \<noteq> [] then Some (key, v) else None
      | _ \<Rightarrow> None)"

text \<open>
  \<open>while (i < requestLines.length && requestLines[i])\<close>, from \<open>i = 1\<close>: the loop
  stops at the first empty line.
\<close>

fun headerLoop :: "string list \<Rightarrow> (string \<rightharpoonup> string) \<Rightarrow> (string \<rightharpoonup> string)" where
  "headerLoop [] hs = hs"
| "headerLoop (line # rest) hs =
     (if line = [] then hs
      else headerLoop rest
             (case headerLine line of
                Some (key, v) \<Rightarrow> setProperty hs key v
              | None \<Rightarrow> hs))"

text \<open>
  The statements of the parser's \<open>try\<close> block after the decoding, and the frame of
  its \<open>catch\<close> block. \<open>requestLine.split\<close> throws on an \<open>undefined\<close> first line.
\<close>

definition defaultRequest :: httpRequest where
  "defaultRequest = \<lparr>httpMethod = ''GET'', path = ''/'', headers = Map.empty\<rparr>"

definition parseRequest :: "string \<Rightarrow> httpRequest" where
  "parseRequest requestText =
     (let requestLines = jsSplit requestText CRLF in
      case nth_opt requestLines 0 of
        None \<Rightarrow> defaultRequest
      | Some requestLine \<Rightarrow>
          let parts = jsSplit requestLine '' '';
              hs = headerLoop (drop 1 requestLines) Map.empty
          in \<lparr>httpMethod = orDefault (nth_opt parts 0) ''GET'',
              path = orDefault (nth_opt parts 1) ''/'',
              headers = hs\<rparr>)"

text \<open>
  The whole \<open>try\<close> block with its \<open>catch\<close>. The first statement,
  \<open>data.toString('utf8')\<close>, throws when the decoded text would be longer than the
  engine allows a string to be; whether it does for a message is an input of the
  model, \<open>toStringThrows\<close>.
\<close>

definition parseMessage :: "(relay_data \<Rightarrow> bool) \<Rightarrow> relay_data \<Rightarrow> httpRequest" where
  "parseMessage toStringThrows data =
     (if toStringThrows data then defaultRequest
      else parseRequest (toStringUtf8 data))"

subsection \<open>Forwarding\<close>

text \<open>
  The handler builds the request options from the frame (\<open>httpRequest.path || '/'\<close>,
  \<open>httpRequest.method || 'GET'\<close>), calls \<open>https.request\<close>, writes the message as
  it came as the request body when \<open>data.length > 0\<close>, and ends the request. All
  of it stands in a \<open>try\<close> whose \<open>catch\<close> logs the error: when the HTTP client
  refuses the options by throwing (\<open>requestThrows\<close>, an input of the model) the
  message is dropped. The rewriting of the header fields is not modelled.
\<close>

record forwardedRequest =
  fwd_method :: string
  fwd_path :: string
  fwd_body :: "relay_data option"

datatype handled = Forwarded forwardedRequest | Dropped

definition onRelayMessage ::
  "(relay_data \<Rightarrow> bool) \<Rightarrow> (httpRequest \<Rightarrow> bool) \<Rightarrow> relay_data \<Rightarrow> handled" where
  "onRelayMessage toStringThrows requestThrows data =
     (let httpRequest = parseMessage toStringThrows data in
      if requestThrows httpRequest then Dropped
      else Forwarded \<lparr>fwd_method = orDefault (Some (httpMethod httpRequest)) ''GET'',
                      fwd_path = orDefault (Some (path httpRequest)) ''/'',
                      fwd_body = (if lengthPositive data then Some data else None)\<rparr>)"

subsection \<open>Words, lines and header occurrences\<close>

text \<open>
  The text before the first occurrence of a separator (the whole text when there
  is none) and the text after it (none when there is none); with them, the first
  line of a text, the first word of a line and its second word.
\<close>

fun textBefore :: "string \<Rightarrow> string \<Rightarrow> string" where
  "textBefore sep [] = []"
| "textBefore sep (c # cs) = (if prefix sep (c # cs) then [] else c # textBefore sep cs)"

fun textAfter :: "string \<Rightarrow> string \<Rightarrow> string option" where
  "textAfter sep [] = None"
| "textAfter sep (c # cs) =
     (if prefix sep (c # cs) then Some (drop (length sep) (c # cs)) else textAfter sep cs)"

definition firstLine :: "string \<Rightarrow> string" where
  "firstLine str = textBefore CRLF str"

definition firstWord :: "string \<Rightarrow> string" where
  "firstWord line = textBefore '' '' line"

definition secondWord :: "string \<Rightarrow> string option" where
  "secondWord line = map_option (textBefore '' '') (textAfter '' '' line)"

text \<open>
  The occurrences of header keys in a request, in the order of the text: the pairs
  that the lines before the first empty line give.
\<close>

fun headerPairs :: "string list \<Rightarrow> (string \<times> string) list" where
  "headerPairs [] = []"
| "headerPairs (line # rest) =
     (if line = [] then []
      else (case headerLine line of Some kv \<Rightarrow> [kv] | None \<Rightarrow> []) @ headerPairs rest)"

lemma utf8Decode_ascii:
  "\<forall>b \<in> set bs. (of_char b :: nat) \<le> 0x7F \<Longrightarrow> utf8Decode 0 0x80 0xBF [] bs = bs"
  by (induction bs) (simp_all add: utf8Decode.simps)

lemma splitAux_pieces:
  "sep \<noteq> [] \<Longrightarrow>
     splitAux sep cur str =
       (rev cur @ textBefore sep str)
         # (case textAfter sep str of None \<Rightarrow> [] | Some r \<Rightarrow> splitAux sep [] r)"
proof (induction sep cur str rule: splitAux.induct)
  case (1 sep cur)
  then show ?case by simp
next
  case (2 sep cur c cs)
  then show ?case by (cases "prefix sep (c # cs)") simp_all
qed

lemma jsSplit_pieces:
  "sep \<noteq> [] \<Longrightarrow>
     jsSplit str sep =
       textBefore sep str # (case textAfter sep str of None \<Rightarrow> [] | Some r \<Rightarrow> jsSplit r sep)"
  using splitAux_pieces [of sep "[]" str] by (simp add: jsSplit_def split: option.split)

lemma orDefault_nonempty: "d \<noteq> [] \<Longrightarrow> orDefault v d \<noteq> []"
  by (simp add: orDefault_def split: option.split)

lemma orDefault_idem: "orDefault (Some (orDefault v d)) d = orDefault v d"
  by (simp add: orDefault_def split: option.split)

lemma parseRequest_fields:
  "httpMethod (parseRequest str) = orDefault (Some (firstWord (firstLine str))) ''GET''"
  "path (parseRequest str) = orDefault (secondWord (firstLine str)) ''/''"
  "headers (parseRequest str) = headerLoop (drop 1 (jsSplit str CRLF)) Map.empty"
proof -
  have lines: "jsSplit str CRLF = firstLine str #
      (case textAfter CRLF str of None \<Rightarrow> [] | Some r \<Rightarrow> jsSplit r CRLF)"
    unfolding firstLine_def by (rule jsSplit_pieces) (simp add: CRLF_def)
  have parts: "jsSplit (firstLine str) '' '' = firstWord (firstLine str) #
      (case textAfter '' '' (firstLine str) of None \<Rightarrow> [] | Some r \<Rightarrow> jsSplit r '' '')"
    unfolding firstWord_def by (rule jsSplit_pieces) simp
  have p0: "nth_opt (jsSplit (firstLine str) '' '') 0 = Some (firstWord (firstLine str))"
    by (subst parts) (simp add: nth_opt_def)
  have p1: "nth_opt (jsSplit (firstLine str) '' '') (Suc 0) = secondWord (firstLine str)"
  proof (cases "textAfter '' '' (firstLine str)")
    case None
    then show ?thesis by (subst parts) (simp add: nth_opt_def secondWord_def)
  next
    case (Some r)
    have "jsSplit r '' '' = textBefore '' '' r #
        (case textAfter '' '' r of None \<Rightarrow> [] | Some r' \<Rightarrow> jsSplit r' '' '')"
      by (rule jsSplit_pieces) simp
    with Some show ?thesis by (subst parts) (simp add: nth_opt_def secondWord_def)
  qed
  have l0: "nth_opt (jsSplit str CRLF) 0 = Some (firstLine str)"
    by (subst lines) (simp add: nth_opt_def)
  show "httpMethod (parseRequest str) = orDefault (Some (firstWord (firstLine str))) ''GET''"
    "path (parseRequest str) = orDefault (secondWord (firstLine str)) ''/''"
    "headers (parseRequest str) = headerLoop (drop 1 (jsSplit str CRLF)) Map.empty"
    by (simp_all add: parseRequest_def l0 p0 p1 Let_def)
qed

lemma parseRequest_empty: "parseRequest [] = defaultRequest"
  by (simp add: parseRequest_def jsSplit_def CRLF_def nth_opt_def orDefault_def
        defaultRequest_def)

lemma headerLoop_lookup:
  "headerLoop lines hs key =
     (if key = ''__proto__'' then hs key
      else case map_of (rev (headerPairs lines)) key of Some v \<Rightarrow> Some v | None \<Rightarrow> hs key)"
proof (induction lines arbitrary: hs)
  case Nil
  then show ?case by simp
next
  case (Cons line rest)
  then show ?case
    by (auto simp: setProperty_def map_add_def split: option.splits)
qed

lemma map_of_rev_last:
  "k \<notin> fst ` set after \<Longrightarrow> map_of (rev (before @ (k, v) # after)) k = Some v"
  by (simp add: map_add_def map_of_eq_None_iff [THEN iffD2] split: option.split)

text \<open>
  C3, as amended. Parsing gives a frame for every message. When decoding the
  message throws, the whole default frame \<open>GET /\<close> without headers is
  substituted. Otherwise the defaults are taken field by field from the decoded
  text: the method is the first word of the first line, or \<open>GET\<close> when that word
  is empty; the path is the second word, or \<open>/\<close> when it is missing or empty. For
  the empty message this gives the default frame. Method and path are never empty.
  When the HTTP client takes the request, the message is forwarded with that method
  and path and with the message as it came as body (no body for the empty
  message); when the HTTP client throws, the message is dropped.
\<close>

theorem parseRequest_defaults:
  "(toStringThrows data \<longrightarrow> parseMessage toStringThrows data = defaultRequest)
   \<and> (\<not> toStringThrows data \<longrightarrow>
        httpMethod (parseMessage toStringThrows data)
          = (if firstWord (firstLine (toStringUtf8 data)) = [] then ''GET''
             else firstWord (firstLine (toStringUtf8 data)))
        \<and> path (parseMessage toStringThrows data)
          = (case secondWord (firstLine (toStringUtf8 data)) of
               None \<Rightarrow> ''/''
             | Some w \<Rightarrow> if w = [] then ''/'' else w))
   \<and> (\<not> lengthPositive data \<longrightarrow> parseMessage toStringThrows data = defaultRequest)
   \<and> httpMethod (parseMessage toStringThrows data) \<noteq> []
   \<and> path (parseMessage toStringThrows data) \<noteq> []
   \<and> (\<not> requestThrows (parseMessage toStringThrows data) \<longrightarrow>
        onRelayMessage toStringThrows requestThrows data
          = Forwarded \<lparr>fwd_method = httpMethod (parseMessage toStringThrows data),
                        fwd_path = path (parseMessage toStringThrows data),
                        fwd_body = (if lengthPositive data then Some data else None)\<rparr>)
   \<and> (requestThrows (parseMessage toStringThrows data) \<longrightarrow>
        onRelayMessage toStringThrows requestThrows data = Dropped)"
proof -
  let ?frame = "parseMessage toStringThrows data"
  have thrown: "?frame = defaultRequest" if "toStringThrows data"
    using that by (simp add: parseMessage_def)
  have fields: "httpMethod ?frame
          = (if firstWord (firstLine (toStringUtf8 data)) = [] then ''GET''
             else firstWord (firstLine (toStringUtf8 data)))
        \<and> path ?frame
          = (case secondWord (firstLine (toStringUtf8 data)) of
               None \<Rightarrow> ''/''
             | Some w \<Rightarrow> if w = [] then ''/'' else w)"
    if "\<not> toStringThrows data"
    using that by (simp add: parseMessage_def parseRequest_fields orDefault_def)
  have empty: "?frame = defaultRequest" if "\<not> lengthPositive data"
  proof -
    from that have "toStringUtf8 data = []"
      by (cases data) (simp_all add: lengthPositive_def toStringUtf8_def utf8Decode.simps)
    then show ?thesis by (simp add: parseMessage_def parseRequest_empty)
  qed
  have nonempty: "httpMethod ?frame \<noteq> []" "path ?frame \<noteq> []"
    by (simp_all add: parseMessage_def defaultRequest_def parseRequest_fields orDefault_nonempty)
  have idem: "orDefault (Some (httpMethod ?frame)) ''GET'' = httpMethod ?frame"
    "orDefault (Some (path ?frame)) ''/'' = path ?frame"
    using nonempty by (simp_all add: orDefault_def)
  have fwd: "onRelayMessage toStringThrows requestThrows data
          = Forwarded \<lparr>fwd_method = httpMethod ?frame, fwd_path = path ?frame,
                        fwd_body = (if lengthPositive data then Some data else None)\<rparr>"
    if "\<not> requestThrows ?frame"
    using that by (simp add: onRelayMessage_def idem Let_def)
  have dropped: "onRelayMessage toStringThrows requestThrows data = Dropped"
    if "requestThrows ?frame"
    using that by (simp add: onRelayMessage_def Let_def)
  from thrown fields empty nonempty fwd dropped show ?thesis by blast
qed

lemma decode_FOO: "toStringUtf8 (Buffer ''FOO'') = ''FOO''"
  by (simp add: toStringUtf8_def utf8Decode_ascii)

theorem parseRequest_defaults_witness:
  "httpMethod (parseMessage (\<lambda>d. False) (Buffer ''FOO'')) = ''FOO''
   \<and> path (parseMessage (\<lambda>d. False) (Buffer ''FOO'')) = ''/''
   \<and> onRelayMessage (\<lambda>d. False) (\<lambda>r. False) (Buffer ''FOO'')
       = Forwarded \<lparr>fwd_method = ''FOO'', fwd_path = ''/'', fwd_body = Some (Buffer ''FOO'')\<rparr>
   \<and> onRelayMessage (\<lambda>d. False) (\<lambda>r. True) (Buffer ''FOO'') = Dropped
   \<and> parseMessage (\<lambda>d. True) (Buffer ''FOO'') = defaultRequest
   \<and> parseMessage (\<lambda>d. False) (Buffer []) = defaultRequest
   \<and> onRelayMessage (\<lambda>d. False) (\<lambda>r. False) (Buffer [])
       = Forwarded \<lparr>fwd_method = ''GET'', fwd_path = ''/'', fwd_body = None\<rparr>"
  using parseRequest_defaults [of "\<lambda>d. False" "Buffer ''FOO''" "\<lambda>r. False"]
    parseRequest_defaults [of "\<lambda>d. False" "Buffer ''FOO''" "\<lambda>r. True"]
    parseRequest_defaults [of "\<lambda>d. True" "Buffer ''FOO''" "\<lambda>r. False"]
    parseRequest_defaults [of "\<lambda>d. False" "Buffer []" "\<lambda>r. False"]
  by (simp add: decode_FOO firstLine_def firstWord_def secondWord_def CRLF_def
        lengthPositive_def defaultRequest_def)

text \<open>
  C3, as stated, fails on messages that are no HTTP request: the words of
  \<open>hello world\<close> become method and path, \<open>FOO\<close> becomes the method, and the
  byte \<open>FF\<close>, which is not UTF-8, becomes the method U+FFFD.
\<close>

theorem parseRequest_default_counterexample:
  "httpMethod (parseMessage (\<lambda>d. False) (Buffer ''hello world'')) = ''hello''
   \<and> path (parseMessage (\<lambda>d. False) (Buffer ''hello world'')) = ''world''
   \<and> parseMessage (\<lambda>d. False) (Buffer ''hello world'') \<noteq> defaultRequest
   \<and> httpMethod (parseMessage (\<lambda>d. False) (Buffer ''FOO'')) = ''FOO''
   \<and> parseMessage (\<lambda>d. False) (Buffer ''FOO'') \<noteq> defaultRequest
   \<and> httpMethod (parseMessage (\<lambda>d. False) (Buffer [CHR 0xFF])) = [CHR 0xEF, CHR 0xBF, CHR 0xBD]
   \<and> parseMessage (\<lambda>d. False) (Buffer [CHR 0xFF]) \<noteq> defaultRequest"
  by (simp add: parseMessage_def toStringUtf8_def utf8Decode.simps REPLACEMENT_def
        parseRequest_def jsSplit_def CRLF_def nth_opt_def orDefault_def defaultRequest_def)

text \<open>
  C7, as amended. When a header key occurs more than once, the frame's headers map
  it to the value of its last occurrence: if \<open>(key, v)\<close> is an occurrence with no
  later occurrence of \<open>key\<close>, the headers hold \<open>v\<close> for \<open>key\<close>. The key
  \<open>__proto__\<close> is the exception: it is never stored.
\<close>

theorem headers_keep_last:
  "\<not> toStringThrows data \<Longrightarrow>
   headerPairs (drop 1 (jsSplit (toStringUtf8 data) CRLF)) = before @ (key, v) # after \<Longrightarrow>
   key \<notin> fst ` set after \<Longrightarrow>
     headers (parseMessage toStringThrows data) key
       = (if key = ''__proto__'' then None else Some v)"
proof -
  assume decoded: "\<not> toStringThrows data"
    and pairs: "headerPairs (drop 1 (jsSplit (toStringUtf8 data) CRLF)) = before @ (key, v) # after"
    and last: "key \<notin> fst ` set after"
  from map_of_rev_last [OF last, of before v] pairs
  have "map_of (rev (headerPairs (drop 1 (jsSplit (toStringUtf8 data) CRLF)))) key = Some v"
    by simp
  with decoded show ?thesis
    by (simp add: parseMessage_def parseRequest_fields headerLoop_lookup)
qed

definition duplicateHeaders :: string where
  "duplicateHeaders =
     ''GET / HTTP/1.1'' @ CRLF @ ''X-A: 1'' @ CRLF @ ''__proto__: 3'' @ CRLF @ ''X-A: 2''
       @ CRLF @ CRLF"

lemma duplicateHeaders_decoded: "toStringUtf8 (Buffer duplicateHeaders) = duplicateHeaders"
  by (simp add: toStringUtf8_def utf8Decode_ascii duplicateHeaders_def CRLF_def)

lemma duplicateHeaders_lines:
  "jsSplit duplicateHeaders CRLF
     = [''GET / HTTP/1.1'', ''X-A: 1'', ''__proto__: 3'', ''X-A: 2'', [], []]"
  by (simp add: duplicateHeaders_def jsSplit_def CRLF_def)

lemma duplicateHeaders_parts:
  "jsSplit ''GET / HTTP/1.1'' '' '' = [''GET'', ''/'', ''HTTP/1.1'']"
  "headerLine ''X-A: 1'' = Some (''X-A'', ''1'')"
  "headerLine ''__proto__: 3'' = Some (''__proto__'', ''3'')"
  "headerLine ''X-A: 2'' = Some (''X-A'', ''2'')"
  by (simp_all add: headerLine_def jsSplit_def nth_opt_def)

theorem headers_keep_last_witness:
  "headers (parseMessage (\<lambda>d. False) (Buffer duplicateHeaders)) ''X-A'' = Some ''2''
   \<and> headers (parseMessage (\<lambda>d. False) (Buffer duplicateHeaders)) ''__proto__'' = None"
  using headers_keep_last [of "\<lambda>d. False" "Buffer duplicateHeaders"
      "[(''X-A'', ''1''), (''__proto__'', ''3'')]" "''X-A''" "''2''" "[]"]
    headers_keep_last [of "\<lambda>d. False" "Buffer duplicateHeaders"
      "[(''X-A'', ''1'')]" "''__proto__''" "''3''" "[(''X-A'', ''2'')]"]
  by (simp add: duplicateHeaders_decoded duplicateHeaders_lines duplicateHeaders_parts)

text \<open>
  C7, as stated, fails on a request with the header line \<open>X-A: 1\<close> followed later
  by \<open>X-A: 2\<close>: the headers hold \<open>2\<close> for \<open>X-A\<close>, not \<open>1\<close>.
\<close>

theorem headers_first_counterexample:
  "headerPairs (drop 1 (jsSplit (toStringUtf8 (Buffer duplicateHeaders)) CRLF))
     = [(''X-A'', ''1''), (''__proto__'', ''3''), (''X-A'', ''2'')]
   \<and> headers (parseMessage (\<lambda>d. False) (Buffer duplicateHeaders)) ''X-A'' = Some ''2''
   \<and> headers (parseMessage (\<lambda>d. False) (Buffer duplicateHeaders)) ''X-A'' \<noteq> Some ''1''"
  by (simp add: parseMessage_def duplicateHeaders_decoded parseRequest_def
        duplicateHeaders_lines duplicateHeaders_parts nth_opt_def setProperty_def)

subsection \<open>Closing after the response\<close>

text \<open>
  The relay connection as the handlers see it: its \<open>readyState\<close>, the
  \<open>close(code, reason)\<close> calls made on it, and the number of pings sent. A
  \<open>close\<close> call on an open connection starts the closing handshake.
\<close>

datatype readyState = CONNECTING | OPEN | CLOSING | CLOSED

record websocket =
  readyState :: readyState
  closeCalls :: "(nat option \<times> string) list"
  pings :: nat

definition ws_close :: "websocket \<Rightarrow> nat option \<Rightarrow> string \<Rightarrow> websocket" where
  "ws_close w code reason =
     w\<lparr>readyState := (if readyState w = OPEN then CLOSING else readyState w),
       closeCalls := closeCalls w @ [(code, reason)]\<rparr>"

text \<open>\<open>String.endsWith\<close> and \<open>String.includes\<close>.\<close>

definition jsEndsWith :: "string \<Rightarrow> string \<Rightarrow> bool" where
  "jsEndsWith s suf = suffix suf s"

definition jsIncludes :: "string \<Rightarrow> string \<Rightarrow> bool" where
  "jsIncludes s sub = sublist sub s"

text \<open>
  The file kinds, read off \<open>options.path\<close>; the core files are the JavaScript files
  whose path contains \<open>webcomponents.js\<close> or \<open>serviceworker.js\<close>.
\<close>

definition isJsFile :: "string \<Rightarrow> bool" where
  "isJsFile p = jsEndsWith p ''.js''"

definition isCssFile :: "string \<Rightarrow> bool" where
  "isCssFile p = jsEndsWith p ''.css''"

definition isCoreJsFile :: "string \<Rightarrow> bool" where
  "isCoreJsFile p =
     (isJsFile p \<and> (jsIncludes p ''webcomponents.js'' \<or> jsIncludes p ''serviceworker.js''))"

text \<open>
  The callback of \<open>ws.send(fullResponse, callback)\<close>, with \<open>err\<close> set when the send
  failed. It returns the connection and the timers it started with \<open>setTimeout\<close>,
  each with its delay in milliseconds; \<open>timerFires\<close> is the body of the timer.
\<close>

datatype timer = CloseIfOpen nat string

definition sendCallback ::
  "bool \<Rightarrow> string \<Rightarrow> websocket \<Rightarrow> websocket \<times> (nat \<times> timer) list" where
  "sendCallback err p w =
     (if err then (w, [])
      else if isJsFile p \<and> \<not> isCoreJsFile p then
        ((if readyState w = OPEN then ws_close w (Some 1000) ''JavaScript file complete'' else w), [])
      else if isCoreJsFile p then (w, [])
      else if isCssFile p then (w, [(100, CloseIfOpen 1000 ''CSS file complete'')])
      else (w, []))"

fun timerFires :: "timer \<Rightarrow> websocket \<Rightarrow> websocket" where
  "timerFires (CloseIfOpen code reason) w =
     (if readyState w = OPEN then ws_close w (Some code) reason else w)"

lemma css_not_js: "isCssFile p \<Longrightarrow> \<not> isJsFile p"
  by (auto simp: isCssFile_def isJsFile_def jsEndsWith_def suffix_to_prefix prefix_def)

text \<open>
  C5, as amended. The kind of the response is read off the request path alone, its
  query string included; the content type of the response is not consulted. After
  the response has been sent without error on an open connection: when the path
  ends with \<open>.js\<close> and contains neither \<open>webcomponents.js\<close> nor
  \<open>serviceworker.js\<close>, the callback closes the connection at once with code
  1000; when the path ends with \<open>.css\<close>, it starts a timer of 100 ms whose body
  closes the connection with code 1000; when the path ends with \<open>.js\<close> and
  contains \<open>webcomponents.js\<close> or \<open>serviceworker.js\<close>, and for every path
  that ends with neither \<open>.js\<close> nor \<open>.css\<close>, it leaves the connection as it
  is and starts no timer.
\<close>

theorem close_policy:
  "readyState w = OPEN \<longrightarrow>
     (isJsFile p \<and> \<not> isCoreJsFile p \<longrightarrow>
        sendCallback False p w = (ws_close w (Some 1000) ''JavaScript file complete'', [])
        \<and> readyState (fst (sendCallback False p w)) = CLOSING)
     \<and> (isCssFile p \<longrightarrow>
        sendCallback False p w = (w, [(100, CloseIfOpen 1000 ''CSS file complete'')])
        \<and> timerFires (CloseIfOpen 1000 ''CSS file complete'') w
            = ws_close w (Some 1000) ''CSS file complete''
        \<and> readyState (timerFires (CloseIfOpen 1000 ''CSS file complete'') w) = CLOSING)
     \<and> (isCoreJsFile p \<or> (\<not> isJsFile p \<and> \<not> isCssFile p) \<longrightarrow>
        sendCallback False p w = (w, []))"
  using css_not_js [of p]
  by (auto simp: sendCallback_def ws_close_def isCoreJsFile_def)

lemma path_kinds:
  "isJsFile ''/assets/index.js''" "\<not> isCoreJsFile ''/assets/index.js''"
  "isCssFile ''/style.css''" "isCoreJsFile ''/assets/js/webcomponents.js''"
  "\<not> isJsFile ''/api/v1/version''" "\<not> isCssFile ''/api/v1/version''"
  by (simp_all add: isJsFile_def isCssFile_def isCoreJsFile_def jsEndsWith_def jsIncludes_def
        suffix_to_prefix sublist_Cons_right)

theorem close_policy_witness:
  "sendCallback False ''/assets/index.js'' \<lparr>readyState = OPEN, closeCalls = [], pings = 0\<rparr>
     = (\<lparr>readyState = CLOSING, closeCalls = [(Some 1000, ''JavaScript file complete'')], pings = 0\<rparr>, [])
   \<and> sendCallback False ''/style.css'' \<lparr>readyState = OPEN, closeCalls = [], pings = 0\<rparr>
     = (\<lparr>readyState = OPEN, closeCalls = [], pings = 0\<rparr>,
        [(100, CloseIfOpen 1000 ''CSS file complete'')])
   \<and> timerFires (CloseIfOpen 1000 ''CSS file complete'') \<lparr>readyState = OPEN, closeCalls = [], pings = 0\<rparr>
     = \<lparr>readyState = CLOSING, closeCalls = [(Some 1000, ''CSS file complete'')], pings = 0\<rparr>
   \<and> sendCallback False ''/assets/js/webcomponents.js'' \<lparr>readyState = OPEN, closeCalls = [], pings = 0\<rparr>
     = (\<lparr>readyState = OPEN, closeCalls = [], pings = 0\<rparr>, [])
   \<and> sendCallback False ''/api/v1/version'' \<lparr>readyState = OPEN, closeCalls = [], pings = 0\<rparr>
     = (\<lparr>readyState = OPEN, closeCalls = [], pings = 0\<rparr>, [])"
  using close_policy [of "\<lparr>readyState = OPEN, closeCalls = [], pings = 0\<rparr>" "''/assets/index.js''"]
    close_policy [of "\<lparr>readyState = OPEN, closeCalls = [], pings = 0\<rparr>" "''/style.css''"]
    close_policy [of "\<lparr>readyState = OPEN, closeCalls = [], pings = 0\<rparr>" "''/assets/js/webcomponents.js''"]
    close_policy [of "\<lparr>readyState = OPEN, closeCalls = [], pings = 0\<rparr>" "''/api/v1/version''"]
  by (simp add: path_kinds ws_close_def)

text \<open>
  C5, as stated, fails on assets and other content alike. A stylesheet and a
  script requested with a version in the query string are a CSS and a JavaScript
  asset, and the connection is kept open with no timer, because their paths do not
  end with \<open>.css\<close> or \<open>.js\<close>. The page that shows the repository file
  \<open>app.js\<close> is an HTML document, and the connection is closed at once, because
  its path ends with \<open>.js\<close>.
\<close>

theorem close_policy_counterexample:
  "sendCallback False ''/assets/css/index.css?v=1.21''
       \<lparr>readyState = OPEN, closeCalls = [], pings = 0\<rparr>
     = (\<lparr>readyState = OPEN, closeCalls = [], pings = 0\<rparr>, [])
   \<and> sendCallback False ''/assets/js/index.js?v=1.21''
       \<lparr>readyState = OPEN, closeCalls = [], pings = 0\<rparr>
     = (\<lparr>readyState = OPEN, closeCalls = [], pings = 0\<rparr>, [])
   \<and> sendCallback False ''/owner/repo/src/branch/main/app.js''
       \<lparr>readyState = OPEN, closeCalls = [], pings = 0\<rparr>
     = (\<lparr>readyState = CLOSING, closeCalls = [(Some 1000, ''JavaScript file complete'')],
         pings = 0\<rparr>, [])"
  by (simp add: sendCallback_def isJsFile_def isCssFile_def isCoreJsFile_def jsEndsWith_def
        jsIncludes_def suffix_to_prefix sublist_Cons_right ws_close_def)

section \<open>Session registries\<close>

text \<open>
  Both listeners keep their sessions in a JavaScript \<open>Map\<close>: \<open>connections\<close> in
  the OpsBot server, keyed by a string, and \<open>activeConnections\<close> in the HTTP
  bridge, keyed by a counter. A \<open>Map\<close> is modelled by its entries in insertion
  order: \<open>set\<close> replaces the value of a key in place or appends a new entry,
  \<open>delete\<close> removes the entry and returns whether there was one.
\<close>

type_synonym ('k, 'v) jsMap = "('k \<times> 'v) list"

definition map_set :: "'k \<Rightarrow> 'v \<Rightarrow> ('k, 'v) jsMap \<Rightarrow> ('k, 'v) jsMap" where
  "map_set k v m = AList.update k v m"

definition map_get :: "('k, 'v) jsMap \<Rightarrow> 'k \<Rightarrow> 'v option" where
  "map_get m k = map_of m k"

definition map_has :: "('k, 'v) jsMap \<Rightarrow> 'k \<Rightarrow> bool" where
  "map_has m k = (map_of m k \<noteq> None)"

definition map_delete :: "'k \<Rightarrow> ('k, 'v) jsMap \<Rightarrow> bool \<times> ('k, 'v) jsMap" where
  "map_delete k m = (map_has m k, AList.delete k m)"

subsection \<open>The OpsBot server's \<open>connections\<close>\<close>

text \<open>
  The connection callback stores the new session under \<open>connectionId\<close>, a string
  made of the clock and a random number (here an input); the \<open>close\<close> and
  \<open>error\<close> handlers of the session delete the id. \<open>Map.set\<close> has no failure; the
  result type has the error of the spec's \<open>register\<close> so that the two can be
  compared.
\<close>

record server_connection =
  sc_ws :: websocket
  connectedAt :: int
  sc_lastActivity :: int
  isProbe :: bool

datatype registry_error = DuplicateId

definition server_onConnection ::
  "string \<Rightarrow> websocket \<Rightarrow> int \<Rightarrow> (string, server_connection) jsMap
     \<Rightarrow> registry_error + (string, server_connection) jsMap" where
  "server_onConnection connectionId w now connections =
     Inr (map_set connectionId
            \<lparr>sc_ws = w, connectedAt = now, sc_lastActivity = now, isProbe = False\<rparr>
            connections)"

definition server_onClose ::
  "string \<Rightarrow> (string, server_connection) jsMap \<Rightarrow> (string, server_connection) jsMap" where
  "server_onClose connectionId connections = snd (map_delete connectionId connections)"

definition server_onError ::
  "string \<Rightarrow> (string, server_connection) jsMap \<Rightarrow> (string, server_connection) jsMap" where
  "server_onError connectionId connections = snd (map_delete connectionId connections)"

subsection \<open>The HTTP bridge's \<open>activeConnections\<close>\<close>

text \<open>
  The connection callback takes the next counter value as id and stores the
  session twice under it: first \<open>{ws, lastActivity: Date.now()}\<close>, then \<open>{ws}\<close>.
\<close>

record listener_connection =
  lc_ws :: websocket
  lc_lastActivity :: "int option"

record listener_state =
  activeConnections :: "(nat, listener_connection) jsMap"
  connectionCounter :: nat

definition listener_onConnection ::
  "websocket \<Rightarrow> int \<Rightarrow> listener_state \<Rightarrow> registry_error + listener_state" where
  "listener_onConnection w now st =
     (let connectionId = connectionCounter st + 1;
          st1 = st\<lparr>connectionCounter := connectionId\<rparr>;
          st2 = st1\<lparr>activeConnections :=
                  map_set connectionId \<lparr>lc_ws = w, lc_lastActivity = Some now\<rparr>
                    (activeConnections st1)\<rparr>;
          st3 = st2\<lparr>activeConnections :=
                  map_set connectionId \<lparr>lc_ws = w, lc_lastActivity = None\<rparr>
                    (activeConnections st2)\<rparr>
      in Inr st3)"

definition listener_onClose :: "nat \<Rightarrow> listener_state \<Rightarrow> listener_state" where
  "listener_onClose connectionId st =
     st\<lparr>activeConnections := snd (map_delete connectionId (activeConnections st))\<rparr>"

definition listener_onError :: "nat \<Rightarrow> listener_state \<Rightarrow> listener_state" where
  "listener_onError connectionId st =
     st\<lparr>activeConnections := snd (map_delete connectionId (activeConnections st))\<rparr>"

subsection \<open>Registering and removing\<close>

lemma map_get_set: "map_get (map_set k v m) k' = (if k' = k then Some v else map_get m k')"
  by (simp add: map_get_def map_set_def update_conv')

lemma map_set_length_present:
  "map_has m k \<Longrightarrow> length (map_set k v m) = length m"
proof -
  assume "map_has m k"
  then have "k \<in> set (map fst m)"
    by (simp add: map_has_def map_of_eq_None_iff)
  then have "length (map fst (AList.update k v m)) = length (map fst m)"
    by (simp add: update_keys)
  then show ?thesis by (simp add: map_set_def)
qed

text \<open>
  C6, as amended. Registering a session never fails: under an id that is already
  present the new session replaces the existing entry (its place in the map and the
  number of entries stay), and no other id is touched. In the HTTP bridge the
  second \<open>set\<close> of the connection callback replaces the entry of the first.
\<close>

theorem register_replaces:
  "(\<exists>connections'. server_onConnection cid w now connections = Inr connections'
       \<and> map_get connections' cid
           = Some \<lparr>sc_ws = w, connectedAt = now, sc_lastActivity = now, isProbe = False\<rparr>
       \<and> (\<forall>other. other \<noteq> cid \<longrightarrow> map_get connections' other = map_get connections other)
       \<and> (map_has connections cid \<longrightarrow> length connections' = length connections))
   \<and> (\<exists>st'. listener_onConnection w now st = Inr st'
       \<and> connectionCounter st' = connectionCounter st + 1
       \<and> map_get (activeConnections st') (connectionCounter st + 1)
           = Some \<lparr>lc_ws = w, lc_lastActivity = None\<rparr>
       \<and> (\<forall>other. other \<noteq> connectionCounter st + 1 \<longrightarrow>
             map_get (activeConnections st') other = map_get (activeConnections st) other))"
  by (simp add: server_onConnection_def listener_onConnection_def map_get_set
        map_set_length_present Let_def)

definition ws0 :: websocket where
  "ws0 = \<lparr>readyState = OPEN, closeCalls = [], pings = 0\<rparr>"

theorem register_replaces_witness:
  "server_onConnection ''k1'' (ws0\<lparr>pings := 7\<rparr>) 50
      [(''k1'', \<lparr>sc_ws = ws0, connectedAt = 10, sc_lastActivity = 20, isProbe = True\<rparr>)]
     = Inr [(''k1'', \<lparr>sc_ws = ws0\<lparr>pings := 7\<rparr>, connectedAt = 50, sc_lastActivity = 50,
                     isProbe = False\<rparr>)]"
  using register_replaces [of "''k1''" "ws0\<lparr>pings := 7\<rparr>" 50
      "[(''k1'', \<lparr>sc_ws = ws0, connectedAt = 10, sc_lastActivity = 20, isProbe = True\<rparr>)]"]
  by (simp add: server_onConnection_def map_set_def)

text \<open>
  C6, as stated, fails: registering under the id \<open>k1\<close>, already present, returns
  the map with the new session under \<open>k1\<close>, not \<open>DuplicateId\<close>; and the HTTP
  bridge's own callback ends with the entry of its second \<open>set\<close>.
\<close>

theorem register_duplicate_counterexample:
  "server_onConnection ''k1'' (ws0\<lparr>pings := 7\<rparr>) 50
      [(''k1'', \<lparr>sc_ws = ws0, connectedAt = 10, sc_lastActivity = 20, isProbe = True\<rparr>)]
     = Inr [(''k1'', \<lparr>sc_ws = ws0\<lparr>pings := 7\<rparr>, connectedAt = 50, sc_lastActivity = 50,
                     isProbe = False\<rparr>)]
   \<and> server_onConnection ''k1'' (ws0\<lparr>pings := 7\<rparr>) 50
      [(''k1'', \<lparr>sc_ws = ws0, connectedAt = 10, sc_lastActivity = 20, isProbe = True\<rparr>)]
     \<noteq> Inl DuplicateId
   \<and> listener_onConnection ws0 50 \<lparr>activeConnections = [], connectionCounter = 0\<rparr>
     = Inr \<lparr>activeConnections = [(1, \<lparr>lc_ws = ws0, lc_lastActivity = None\<rparr>)],
            connectionCounter = 1\<rparr>"
  by (simp add: server_onConnection_def listener_onConnection_def map_set_def)

lemma map_delete_absent: "\<not> map_has m k \<Longrightarrow> map_delete k m = (False, m)"
  by (simp add: map_delete_def map_has_def map_of_eq_None_iff)

lemma map_has_delete: "\<not> map_has (snd (map_delete k m)) k"
  by (simp add: map_delete_def map_has_def delete_conv')

lemma map_get_delete:
  "map_get (snd (map_delete k m)) k' = (if k' = k then None else map_get m k')"
  by (simp add: map_delete_def map_get_def delete_conv')

text \<open>
  C9. Deleting an id that is not in the map changes nothing and reports that nothing
  was removed; a second delete of the same id therefore removes nothing. The
  \<open>close\<close> handler after the \<open>error\<close> handler of the same session (or the other
  way round) leaves the registry as the first of them left it, in both listeners,
  and no other id is touched.
\<close>

theorem remove_idempotent:
  "(\<not> map_has connections cid \<longrightarrow> map_delete cid connections = (False, connections))
   \<and> map_delete cid (snd (map_delete cid connections)) = (False, snd (map_delete cid connections))
   \<and> server_onClose cid (server_onError cid connections) = server_onError cid connections
   \<and> server_onError cid (server_onClose cid connections) = server_onClose cid connections
   \<and> listener_onClose n (listener_onError n st) = listener_onError n st
   \<and> listener_onError n (listener_onClose n st) = listener_onClose n st
   \<and> (\<forall>other. other \<noteq> cid \<longrightarrow>
         map_get (server_onClose cid connections) other = map_get connections other)"
  using map_delete_absent [OF map_has_delete, of cid connections]
        map_delete_absent [OF map_has_delete, of n "activeConnections st"]
  by (auto simp: server_onClose_def server_onError_def listener_onClose_def
        listener_onError_def map_delete_absent map_get_delete)

theorem remove_idempotent_witness:
  "map_delete ''k2'' [(''k1'', \<lparr>sc_ws = ws0, connectedAt = 10, sc_lastActivity = 20, isProbe = True\<rparr>)]
     = (False, [(''k1'', \<lparr>sc_ws = ws0, connectedAt = 10, sc_lastActivity = 20, isProbe = True\<rparr>)])
   \<and> server_onClose ''k1'' (server_onError ''k1''
        [(''k1'', \<lparr>sc_ws = ws0, connectedAt = 10, sc_lastActivity = 20, isProbe = True\<rparr>)]) = []"
  using remove_idempotent [of "[(''k1'', \<lparr>sc_ws = ws0, connectedAt = 10, sc_lastActivity = 20, isProbe = True\<rparr>)]" "''k2''"]
    remove_idempotent [of "[(''k1'', \<lparr>sc_ws = ws0, connectedAt = 10, sc_lastActivity = 20, isProbe = True\<rparr>)]" "''k1''"]
  by (simp add: map_has_def server_onError_def map_delete_def)

subsection \<open>Periodic sweeps\<close>

text \<open>
  \<open>startConnectionCleanup\<close> of the OpsBot server runs every minute over
  \<open>connections\<close>: a session whose last activity is more than five minutes before
  \<open>now\<close> is closed (\<open>ws.close()\<close> without arguments) and deleted. The function
  returns the map after the sweep and the sessions it closed. \<open>forEach\<close> visits the
  entries in insertion order, and the callback deletes the entry it visits only.
\<close>

fun cleanupLoop ::
  "int \<Rightarrow> (string, server_connection) jsMap
     \<Rightarrow> (string, server_connection) jsMap \<times> (string \<times> websocket) list" where
  "cleanupLoop now [] = ([], [])"
| "cleanupLoop now ((cid, connection) # rest) =
     (let inactiveTime = now - sc_lastActivity connection;
          swept = cleanupLoop now rest
      in if inactiveTime > 5 * 60 * 1000
         then (fst swept, (cid, ws_close (sc_ws connection) None []) # snd swept)
         else ((cid, connection) # fst swept, snd swept))"

text \<open>The sweep is started with \<open>setInterval\<close>; its \<open>k\<close>-th run is due at \<open>cleanupTime\<close>.\<close>

definition cleanupInterval :: int where
  "cleanupInterval = 60 * 1000"

definition cleanupTime :: "int \<Rightarrow> nat \<Rightarrow> int" where
  "cleanupTime started k = started + int k * cleanupInterval"

text \<open>
  \<open>sendHeartbeats\<close> of the HTTP bridge runs every 30 seconds over
  \<open>activeConnections\<close>: an open session is pinged and its \<open>lastActivity\<close> set to
  \<open>now\<close>; a session that is not open, or whose ping throws, is deleted from the
  map (no \<open>close\<close> call is made). The function returns the map after the sweep and
  the deleted entries.
\<close>

fun sendHeartbeats ::
  "(nat \<Rightarrow> bool) \<Rightarrow> int \<Rightarrow> (nat, listener_connection) jsMap
     \<Rightarrow> (nat, listener_connection) jsMap \<times> (nat \<times> listener_connection) list" where
  "sendHeartbeats pingThrows now [] = ([], [])"
| "sendHeartbeats pingThrows now ((cid, conn) # rest) =
     (let swept = sendHeartbeats pingThrows now rest
      in if readyState (lc_ws conn) = OPEN then
           if pingThrows cid then (fst swept, (cid, conn) # snd swept)
           else ((cid, conn\<lparr>lc_ws := (lc_ws conn)\<lparr>pings := Suc (pings (lc_ws conn))\<rparr>,
                            lc_lastActivity := Some now\<rparr>) # fst swept, snd swept)
         else (fst swept, (cid, conn) # snd swept))"

definition HEARTBEAT_INTERVAL :: int where
  "HEARTBEAT_INTERVAL = 30000"

lemma cleanupLoop_keys:
  "(k, v) \<in> set (fst (cleanupLoop now m)) \<Longrightarrow> k \<in> fst ` set m"
  by (induction m) (force simp: Let_def split: if_splits)+

lemma cleanupLoop_sweep:
  "distinct (map fst m) \<Longrightarrow> (cid, c) \<in> set m \<Longrightarrow>
     (if now - sc_lastActivity c > 300000
      then cid \<notin> fst ` set (fst (cleanupLoop now m))
           \<and> (cid, ws_close (sc_ws c) None []) \<in> set (snd (cleanupLoop now m))
      else (cid, c) \<in> set (fst (cleanupLoop now m)))"
proof (induction m)
  case Nil
  then show ?case by simp
next
  case (Cons e m)
  obtain cid' c' where e: "e = (cid', c')" by (cases e)
  show ?case
  proof (cases "(cid, c) = (cid', c')")
    case True
    with Cons.prems e show ?thesis
      by (auto simp: Let_def dest: cleanupLoop_keys [of _ _ now m])
  next
    case False
    with Cons.prems e have "(cid, c) \<in> set m" and "distinct (map fst m)" and "cid \<noteq> cid'"
      by (auto simp: image_iff)
    with Cons.IH e show ?thesis
      by (auto simp: Let_def split: if_splits)
  qed
qed

lemma sweep_time:
  fixes a started :: int
  assumes "started \<le> a + 300000"
  defines "k \<equiv> nat ((a + 300000 - started) div 60000) + 1"
  shows "a + 300000 < cleanupTime started k" and "cleanupTime started k \<le> a + 300000 + cleanupInterval"
proof -
  define d where "d = a + 300000 - started"
  have d0: "0 \<le> d" using assms(1) by (simp add: d_def)
  have "int k = d div 60000 + 1"
    using d0 by (simp add: k_def d_def)
  then have kt: "cleanupTime started k = started + (d div 60000) * 60000 + 60000"
    by (simp add: cleanupTime_def cleanupInterval_def algebra_simps)
  have "d = (d div 60000) * 60000 + d mod 60000" by simp
  moreover have "0 \<le> d mod 60000" "d mod 60000 < 60000" by simp_all
  ultimately have "(d div 60000) * 60000 \<le> d" "d < (d div 60000) * 60000 + 60000"
    by linarith+
  then show "a + 300000 < cleanupTime started k"
    and "cleanupTime started k \<le> a + 300000 + cleanupInterval"
    by (simp_all add: kt d_def cleanupInterval_def)
qed

lemma sendHeartbeats_keys:
  "(k, v) \<in> set (fst (sendHeartbeats pt now m)) \<Longrightarrow> k \<in> fst ` set m"
  by (induction m) (force simp: Let_def split: if_splits)+

lemma sendHeartbeats_sweep:
  "distinct (map fst m) \<Longrightarrow> (cid, c) \<in> set m \<Longrightarrow>
     (if readyState (lc_ws c) = OPEN \<and> \<not> pt cid
      then (cid, c\<lparr>lc_ws := (lc_ws c)\<lparr>pings := Suc (pings (lc_ws c))\<rparr>,
                    lc_lastActivity := Some now\<rparr>) \<in> set (fst (sendHeartbeats pt now m))
      else cid \<notin> fst ` set (fst (sendHeartbeats pt now m))
           \<and> (cid, c) \<in> set (snd (sendHeartbeats pt now m)))"
proof (induction m)
  case Nil
  then show ?case by simp
next
  case (Cons e m)
  obtain cid' c' where e: "e = (cid', c')" by (cases e)
  show ?case
  proof (cases "(cid, c) = (cid', c')")
    case True
    with Cons.prems e show ?thesis
      by (auto simp: Let_def dest: sendHeartbeats_keys [of _ _ pt now m])
  next
    case False
    with Cons.prems e have "(cid, c) \<in> set m" and "distinct (map fst m)" and "cid \<noteq> cid'"
      by (auto simp: image_iff)
    with Cons.IH e show ?thesis
      by (auto simp: Let_def split: if_splits)
  qed
qed


text \<open>
  C8, as amended. In the OpsBot server a session with no activity for more than
  five minutes is closed and removed by the cleanup sweep, a session with activity
  within five minutes is kept, and with sweeps due every 60 seconds a sweep that
  removes the session is due no later than 60 seconds after the session crossed the
  threshold. In the HTTP bridge the heartbeat sweep deletes, at the sweep, every
  session whose connection is not open, without closing it; it pings every open
  session and sets its \<open>lastActivity\<close> to the time of the sweep, and deletes an
  open session whose ping throws, without closing it.
\<close>

theorem sweeps_evict:
  "(distinct (map fst connections) \<and> (cid, c) \<in> set connections
      \<and> now - sc_lastActivity c > 5 * 60 * 1000 \<longrightarrow>
        cid \<notin> fst ` set (fst (cleanupLoop now connections))
        \<and> (cid, ws_close (sc_ws c) None []) \<in> set (snd (cleanupLoop now connections)))
   \<and> (distinct (map fst connections) \<and> (cid, c) \<in> set connections
      \<and> now - sc_lastActivity c \<le> 5 * 60 * 1000 \<longrightarrow>
        (cid, c) \<in> set (fst (cleanupLoop now connections)))
   \<and> (distinct (map fst connections) \<and> (cid, c) \<in> set connections
      \<and> started \<le> sc_lastActivity c + 5 * 60 * 1000 \<longrightarrow>
        (\<exists>k\<ge>1. sc_lastActivity c + 5 * 60 * 1000 < cleanupTime started k
           \<and> cleanupTime started k \<le> sc_lastActivity c + 5 * 60 * 1000 + cleanupInterval
           \<and> cid \<notin> fst ` set (fst (cleanupLoop (cleanupTime started k) connections))))
   \<and> (distinct (map fst active) \<and> (n, conn) \<in> set active
      \<and> readyState (lc_ws conn) \<noteq> OPEN \<longrightarrow>
        n \<notin> fst ` set (fst (sendHeartbeats pingThrows now active))
        \<and> (n, conn) \<in> set (snd (sendHeartbeats pingThrows now active)))
   \<and> (distinct (map fst active) \<and> (n, conn) \<in> set active
      \<and> readyState (lc_ws conn) = OPEN \<and> \<not> pingThrows n \<longrightarrow>
        (n, conn\<lparr>lc_ws := (lc_ws conn)\<lparr>pings := Suc (pings (lc_ws conn))\<rparr>,
                   lc_lastActivity := Some now\<rparr>)
          \<in> set (fst (sendHeartbeats pingThrows now active)))
   \<and> (distinct (map fst active) \<and> (n, conn) \<in> set active
      \<and> readyState (lc_ws conn) = OPEN \<and> pingThrows n \<longrightarrow>
        n \<notin> fst ` set (fst (sendHeartbeats pingThrows now active))
        \<and> (n, conn) \<in> set (snd (sendHeartbeats pingThrows now active)))"
proof -
  have idle: "cid \<notin> fst ` set (fst (cleanupLoop t connections))
        \<and> (cid, ws_close (sc_ws c) None []) \<in> set (snd (cleanupLoop t connections))"
    if "distinct (map fst connections)" "(cid, c) \<in> set connections"
       "t - sc_lastActivity c > 5 * 60 * 1000" for t
    using cleanupLoop_sweep [OF that(1) that(2), of t] that(3) by simp
  have active: "(cid, c) \<in> set (fst (cleanupLoop now connections))"
    if "distinct (map fst connections)" "(cid, c) \<in> set connections"
       "now - sc_lastActivity c \<le> 5 * 60 * 1000"
    using cleanupLoop_sweep [OF that(1) that(2), of now] that(3) by simp
  have timed: "\<exists>k\<ge>1. sc_lastActivity c + 5 * 60 * 1000 < cleanupTime started k
           \<and> cleanupTime started k \<le> sc_lastActivity c + 5 * 60 * 1000 + cleanupInterval
           \<and> cid \<notin> fst ` set (fst (cleanupLoop (cleanupTime started k) connections))"
    if d: "distinct (map fst connections)" and m: "(cid, c) \<in> set connections"
      and s: "started \<le> sc_lastActivity c + 5 * 60 * 1000"
  proof -
    define k where "k = nat ((sc_lastActivity c + 300000 - started) div 60000) + 1"
    from s have s': "started \<le> sc_lastActivity c + 300000" by simp
    have lo: "sc_lastActivity c + 300000 < cleanupTime started k"
      and hi: "cleanupTime started k \<le> sc_lastActivity c + 300000 + cleanupInterval"
      unfolding k_def by (rule sweep_time [OF s'])+
    from lo have "cleanupTime started k - sc_lastActivity c > 5 * 60 * 1000" by simp
    from idle [OF d m this] lo hi have
      "1 \<le> k \<and> sc_lastActivity c + 5 * 60 * 1000 < cleanupTime started k
       \<and> cleanupTime started k \<le> sc_lastActivity c + 5 * 60 * 1000 + cleanupInterval
       \<and> cid \<notin> fst ` set (fst (cleanupLoop (cleanupTime started k) connections))"
      by (simp add: k_def)
    then show ?thesis by blast
  qed
  have stale: "n \<notin> fst ` set (fst (sendHeartbeats pingThrows now active))
        \<and> (n, conn) \<in> set (snd (sendHeartbeats pingThrows now active))"
    if "distinct (map fst active)" "(n, conn) \<in> set active" "readyState (lc_ws conn) \<noteq> OPEN"
    using sendHeartbeats_sweep [OF that(1) that(2), of pingThrows now] that(3) by simp
  have pinged: "(n, conn\<lparr>lc_ws := (lc_ws conn)\<lparr>pings := Suc (pings (lc_ws conn))\<rparr>,
                   lc_lastActivity := Some now\<rparr>)
          \<in> set (fst (sendHeartbeats pingThrows now active))"
    if "distinct (map fst active)" "(n, conn) \<in> set active"
       "readyState (lc_ws conn) = OPEN" "\<not> pingThrows n"
    using sendHeartbeats_sweep [OF that(1) that(2), of pingThrows now] that(3) that(4) by simp
  have failed: "n \<notin> fst ` set (fst (sendHeartbeats pingThrows now active))
        \<and> (n, conn) \<in> set (snd (sendHeartbeats pingThrows now active))"
    if "distinct (map fst active)" "(n, conn) \<in> set active"
       "readyState (lc_ws conn) = OPEN" "pingThrows n"
    using sendHeartbeats_sweep [OF that(1) that(2), of pingThrows now] that(3) that(4) by simp
  from idle [of now] active timed stale pinged failed show ?thesis by blast
qed

definition idleConnection :: server_connection where
  "idleConnection = \<lparr>sc_ws = ws0, connectedAt = 0, sc_lastActivity = 1000, isProbe = False\<rparr>"

theorem sweeps_evict_witness:
  "fst (cleanupLoop 301001 [(''k1'', idleConnection)]) = []
   \<and> snd (cleanupLoop 301001 [(''k1'', idleConnection)])
       = [(''k1'', \<lparr>readyState = CLOSING, closeCalls = [(None, [])], pings = 0\<rparr>)]
   \<and> fst (cleanupLoop 301000 [(''k1'', idleConnection)]) = [(''k1'', idleConnection)]
   \<and> fst (sendHeartbeats (\<lambda>n. False) 301001
           [(1, \<lparr>lc_ws = ws0\<lparr>readyState := CLOSED\<rparr>, lc_lastActivity = None\<rparr>)]) = []
   \<and> fst (sendHeartbeats (\<lambda>n. False) 301000 [(2, \<lparr>lc_ws = ws0, lc_lastActivity = None\<rparr>)])
       = [(2, \<lparr>lc_ws = ws0\<lparr>pings := 1\<rparr>, lc_lastActivity = Some 301000\<rparr>)]
   \<and> sendHeartbeats (\<lambda>n. True) 301000 [(3, \<lparr>lc_ws = ws0, lc_lastActivity = None\<rparr>)]
       = ([], [(3, \<lparr>lc_ws = ws0, lc_lastActivity = None\<rparr>)])"
  using sweeps_evict [where connections = "[(''k1'', idleConnection)]" and cid = "''k1''"
          and c = idleConnection and now = 301001 and started = 0
          and active = "[(1, \<lparr>lc_ws = ws0\<lparr>readyState := CLOSED\<rparr>, lc_lastActivity = None\<rparr>)]"
          and n = 1 and conn = "\<lparr>lc_ws = ws0\<lparr>readyState := CLOSED\<rparr>, lc_lastActivity = None\<rparr>"
          and pingThrows = "\<lambda>n. False"]
        sweeps_evict [where connections = "[(''k1'', idleConnection)]" and cid = "''k1''"
          and c = idleConnection and now = 301000 and started = 0
          and active = "[(2, \<lparr>lc_ws = ws0, lc_lastActivity = None\<rparr>)]"
          and n = 2 and conn = "\<lparr>lc_ws = ws0, lc_lastActivity = None\<rparr>"
          and pingThrows = "\<lambda>n. False"]
        sweeps_evict [where connections = "[(''k1'', idleConnection)]" and cid = "''k1''"
          and c = idleConnection and now = 301000 and started = 0
          and active = "[(3, \<lparr>lc_ws = ws0, lc_lastActivity = None\<rparr>)]"
          and n = 3 and conn = "\<lparr>lc_ws = ws0, lc_lastActivity = None\<rparr>"
          and pingThrows = "\<lambda>n. True"]
  by (simp add: idleConnection_def ws0_def ws_close_def)

text \<open>
  C8, as stated, fails: the heartbeat sweep keeps an open session whose last
  activity is 10000 seconds old, and deletes a session that is not open without a
  \<open>close\<close> call; the cleanup sweep keeps a closed session with recent activity.
\<close>

theorem heartbeat_idle_counterexample:
  "sendHeartbeats (\<lambda>n. False) 10000000 [(1, \<lparr>lc_ws = ws0, lc_lastActivity = Some 0\<rparr>)]
     = ([(1, \<lparr>lc_ws = ws0\<lparr>pings := 1\<rparr>, lc_lastActivity = Some 10000000\<rparr>)], [])
   \<and> sendHeartbeats (\<lambda>n. False) 10000000
       [(2, \<lparr>lc_ws = \<lparr>readyState = CLOSING, closeCalls = [], pings = 0\<rparr>, lc_lastActivity = None\<rparr>)]
     = ([], [(2, \<lparr>lc_ws = \<lparr>readyState = CLOSING, closeCalls = [], pings = 0\<rparr>,
                  lc_lastActivity = None\<rparr>)])
   \<and> cleanupLoop 1000
       [(''k1'', \<lparr>sc_ws = \<lparr>readyState = CLOSED, closeCalls = [], pings = 0\<rparr>, connectedAt = 0,
                  sc_lastActivity = 900, isProbe = False\<rparr>)]
     = ([(''k1'', \<lparr>sc_ws = \<lparr>readyState = CLOSED, closeCalls = [], pings = 0\<rparr>, connectedAt = 0,
                  sc_lastActivity = 900, isProbe = False\<rparr>)], [])"
  by (simp add: ws0_def)

section \<open>The client's pending commands\<close>

text \<open>
  The OpsBot client keeps one relay connection (\<open>ws\<close>, \<open>connected\<close>), a counter
  \<open>commandId\<close> and the map \<open>pendingCommands\<close> from command ids to callbacks.
  \<open>sendCommand\<close> returns a promise; the callback stored under the id settles that
  promise. A promise is identified by its number in order of creation, and
  \<open>settled\<close> records, for every promise, the calls of its \<open>resolve\<close> and
  \<open>reject\<close> in order (the first one decides the promise). \<open>timers\<close> holds the
  30 second timeouts that have been started and have not fired, each for the id and
  the promise of its call; \<open>sent\<close> is what has been sent on the connection.
  \<open>wsOpen\<close> is the state of the connection, \<open>ws.readyState === OPEN\<close>: it is
  set when the connection is made and cleared when the connection starts to close,
  which is before the \<open>close\<close> event that clears \<open>connected\<close>.
\<close>

datatype command_error =
  NotConnected | SendFailed | ResponseError string | ConnectionClosed | TimedOut

datatype settlement = Resolve string | Reject command_error

datatype ws_message =
    Unparseable
  | CommandResponse nat "string option" string
  | ErrorMessage string
  | OtherMessage

record client =
  connected :: bool
  wsPresent :: bool
  wsOpen :: bool
  commandId :: nat
  pendingCommands :: "(nat, nat) jsMap"
  timers :: "(nat \<times> nat) list"
  promiseCount :: nat
  settled :: "nat \<Rightarrow> settlement list"
  sent :: "(nat \<times> string) list"

text \<open>A call of \<open>resolve\<close> or \<open>reject\<close> of promise \<open>p\<close>.\<close>

definition settle :: "nat \<Rightarrow> settlement \<Rightarrow> client \<Rightarrow> client" where
  "settle p x st = st\<lparr>settled := (settled st)(p := settled st p @ [x])\<rparr>"

text \<open>
  The callback stored by \<open>sendCommand\<close>: \<open>if (error) reject(error) else
  resolve(result)\<close>; an absent error and the empty string are falsy.
\<close>

definition callback :: "nat \<Rightarrow> string option \<Rightarrow> string \<Rightarrow> client \<Rightarrow> client" where
  "callback p err res st =
     (case err of
        Some e \<Rightarrow> if e \<noteq> [] then settle p (Reject (ResponseError e)) st
                  else settle p (Resolve res) st
      | None \<Rightarrow> settle p (Resolve res) st)"

text \<open>
  \<open>sendCommand\<close>: the executor of the new promise. Called while not connected it
  rejects the promise and returns. Otherwise it takes the next id, stores the
  callback under it, sends the command and starts the timer. \<open>ws.send\<close>, called
  without a callback, throws when the connection is not open; the exception leaves
  the executor, so that the promise is rejected with it and the statement after
  \<open>ws.send\<close>, which starts the timer, is not run.
\<close>

definition sendCommand :: "string \<Rightarrow> client \<Rightarrow> nat \<times> client" where
  "sendCommand command st =
     (let p = promiseCount st;
          st0 = st\<lparr>promiseCount := p + 1\<rparr>
      in if \<not> connected st0 \<or> \<not> wsPresent st0 then (p, settle p (Reject NotConnected) st0)
         else
           let cid = commandId st0;
               st1 = st0\<lparr>commandId := cid + 1\<rparr>;
               st2 = st1\<lparr>pendingCommands := map_set cid p (pendingCommands st1)\<rparr>
           in if \<not> wsOpen st2 then (p, settle p (Reject SendFailed) st2)
              else
                let st3 = st2\<lparr>sent := sent st2 @ [(cid, command)]\<rparr>;
                    st4 = st3\<lparr>timers := timers st3 @ [(cid, p)]\<rparr>
                in (p, st4))"

text \<open>
  The message handler of \<open>initializeConnection\<close>. A message that does not parse is
  logged; a \<open>command_response\<close> with a truthy id whose id is pending calls the
  callback and deletes the entry.
\<close>

definition onResponse :: "ws_message \<Rightarrow> client \<Rightarrow> client" where
  "onResponse msg st =
     (case msg of
        CommandResponse cid err res \<Rightarrow>
          if cid \<noteq> 0 then
            (case map_get (pendingCommands st) cid of
               Some p \<Rightarrow>
                 let st1 = callback p err res st
                 in st1\<lparr>pendingCommands := snd (map_delete cid (pendingCommands st1))\<rparr>
             | None \<Rightarrow> st)
          else st
      | _ \<Rightarrow> st)"

text \<open>
  The close handler: \<open>connected = false\<close>, then \<open>pendingCommands.forEach\<close>
  rejects every pending command and deletes its entry.
\<close>

fun rejectAll :: "(nat \<times> nat) list \<Rightarrow> client \<Rightarrow> client" where
  "rejectAll [] st = st"
| "rejectAll ((cid, p) # rest) st =
     rejectAll rest
       ((settle p (Reject ConnectionClosed) st)
          \<lparr>pendingCommands := snd (map_delete cid (pendingCommands st))\<rparr>)"

definition onClosed :: "client \<Rightarrow> client" where
  "onClosed st = rejectAll (pendingCommands st) (st\<lparr>connected := False\<rparr>)"

text \<open>The body of the 30 second timer of the call with id \<open>cid\<close> and promise \<open>p\<close>.\<close>

definition onTimeout :: "nat \<Rightarrow> nat \<Rightarrow> client \<Rightarrow> client" where
  "onTimeout cid p st =
     (if (cid, p) \<in> set (timers st) then
        let st1 = st\<lparr>timers := removeAll (cid, p) (timers st)\<rparr>
        in if map_has (pendingCommands st1) cid then
             settle p (Reject TimedOut)
               (st1\<lparr>pendingCommands := snd (map_delete cid (pendingCommands st1))\<rparr>)
           else st1
      else st)"

text \<open>\<open>initializeConnection\<close> after \<open>connectWithRetry\<close> has returned a connection.\<close>

definition onConnected :: "client \<Rightarrow> client" where
  "onConnected st = st\<lparr>connected := True, wsPresent := True\<rparr>"

text \<open>
  What happens to the client, one event at a time, from the start of the program:
  a call of \<open>sendCommand\<close>, a message from the server, the connection starting to
  close (it leaves the state \<open>OPEN\<close>), the \<open>close\<close> event, a timer firing, and a
  new open connection returned by \<open>connectWithRetry\<close>.
\<close>

datatype client_event =
    Call string
  | Message ws_message
  | Closing
  | Closed
  | Timeout nat nat
  | ConnectionUp

fun step :: "client \<Rightarrow> client_event \<Rightarrow> client" where
  "step st (Call command) = snd (sendCommand command st)"
| "step st (Message msg) = onResponse msg st"
| "step st Closing = st\<lparr>wsOpen := False\<rparr>"
| "step st Closed = onClosed (st\<lparr>wsOpen := False\<rparr>)"
| "step st (Timeout cid p) = onTimeout cid p st"
| "step st ConnectionUp = onConnected (st\<lparr>wsOpen := True\<rparr>)"

definition run :: "client_event list \<Rightarrow> client \<Rightarrow> client" where
  "run es st = foldl step st es"

definition start :: client where
  "start = \<lparr>connected = False, wsPresent = False, wsOpen = False, commandId = 1,
            pendingCommands = [], timers = [], promiseCount = 0, settled = (\<lambda>p. []),
            sent = []\<rparr>"

subsection \<open>An invariant of the client\<close>

text \<open>
  In every reachable state: the pending ids and their promises are pairwise
  different and below the counters, as are the ids and promises of the timers; a
  pending id and a timer with the same id belong to the same promise; promises not
  yet created are unsettled.
\<close>

definition consistent :: "client \<Rightarrow> bool" where
  "consistent st \<longleftrightarrow>
     distinct (map fst (pendingCommands st))
     \<and> distinct (map snd (pendingCommands st))
     \<and> (\<forall>i p. (i, p) \<in> set (pendingCommands st) \<longrightarrow> i < commandId st \<and> p < promiseCount st)
     \<and> (\<forall>i p. (i, p) \<in> set (timers st) \<longrightarrow> i < commandId st \<and> p < promiseCount st)
     \<and> (\<forall>i p q. (i, p) \<in> set (pendingCommands st) \<longrightarrow> (i, q) \<in> set (timers st) \<longrightarrow> p = q)
     \<and> (\<forall>p. promiseCount st \<le> p \<longrightarrow> settled st p = [])
     \<and> 0 < commandId st"

lemma consistentI:
  "distinct (map fst (pendingCommands st)) \<Longrightarrow> distinct (map snd (pendingCommands st)) \<Longrightarrow>
   (\<And>i p. (i, p) \<in> set (pendingCommands st) \<Longrightarrow> i < commandId st \<and> p < promiseCount st) \<Longrightarrow>
   (\<And>i p. (i, p) \<in> set (timers st) \<Longrightarrow> i < commandId st \<and> p < promiseCount st) \<Longrightarrow>
   (\<And>i p q. (i, p) \<in> set (pendingCommands st) \<Longrightarrow> (i, q) \<in> set (timers st) \<Longrightarrow> p = q) \<Longrightarrow>
   (\<And>p. promiseCount st \<le> p \<Longrightarrow> settled st p = []) \<Longrightarrow>
   0 < commandId st \<Longrightarrow> consistent st"
  unfolding consistent_def by blast

lemma consistent_distinct:
  "consistent st \<Longrightarrow> distinct (map fst (pendingCommands st))"
  "consistent st \<Longrightarrow> distinct (map snd (pendingCommands st))"
  unfolding consistent_def by blast+

lemma consistent_pending_bounds:
  "consistent st \<Longrightarrow> (i, p) \<in> set (pendingCommands st) \<Longrightarrow> i < commandId st \<and> p < promiseCount st"
  unfolding consistent_def by blast

lemma consistent_timer_bounds:
  "consistent st \<Longrightarrow> (i, p) \<in> set (timers st) \<Longrightarrow> i < commandId st \<and> p < promiseCount st"
  unfolding consistent_def by blast

lemma consistent_paired:
  "consistent st \<Longrightarrow> (i, p) \<in> set (pendingCommands st) \<Longrightarrow> (i, q) \<in> set (timers st) \<Longrightarrow> p = q"
  unfolding consistent_def by blast

lemma consistent_unsettled:
  "consistent st \<Longrightarrow> promiseCount st \<le> p \<Longrightarrow> settled st p = []"
  unfolding consistent_def by blast

lemma consistent_positive: "consistent st \<Longrightarrow> 0 < commandId st"
  unfolding consistent_def by blast

lemma map_set_fresh: "k \<notin> fst ` set m \<Longrightarrow> map_set k v m = m @ [(k, v)]"
  by (induction m) (auto simp: map_set_def)

lemma map_delete_filter: "snd (map_delete k m) = filter (\<lambda>e. fst e \<noteq> k) m"
  by (induction m) (auto simp: map_delete_def)

lemma set_map_delete: "set (snd (map_delete k m)) = {e \<in> set m. fst e \<noteq> k}"
  by (simp add: map_delete_filter)

lemma map_get_SomeD: "map_get m k = Some v \<Longrightarrow> (k, v) \<in> set m"
  by (simp add: map_get_def map_of_SomeD)

lemma map_get_SomeI: "distinct (map fst m) \<Longrightarrow> (k, v) \<in> set m \<Longrightarrow> map_get m k = Some v"
  by (simp add: map_get_def)

lemma map_has_iff: "map_has m k \<longleftrightarrow> k \<in> fst ` set m"
  by (simp add: map_has_def map_of_eq_None_iff)

lemma distinct_snd_key:
  "distinct (map snd m) \<Longrightarrow> (i, p) \<in> set m \<Longrightarrow> (j, p) \<in> set m \<Longrightarrow> i = j"
  by (induction m) (auto simp: image_iff)

lemma distinct_fst_value:
  "distinct (map fst m) \<Longrightarrow> (i, p) \<in> set m \<Longrightarrow> (i, q) \<in> set m \<Longrightarrow> p = q"
  by (induction m) (auto simp: image_iff)

lemma consistent_fresh: "consistent st \<Longrightarrow> commandId st \<notin> fst ` set (pendingCommands st)"
proof
  assume c: "consistent st" and "commandId st \<in> fst ` set (pendingCommands st)"
  then obtain q where "(commandId st, q) \<in> set (pendingCommands st)" by force
  from consistent_pending_bounds [OF c this] show False by simp
qed

lemma consistent_start: "consistent start"
  by (simp add: consistent_def start_def)

lemma sendCommand_rejected:
  "\<not> connected st \<or> \<not> wsPresent st \<Longrightarrow>
     sendCommand command st =
       (promiseCount st,
        st\<lparr>promiseCount := promiseCount st + 1,
           settled := (settled st)(promiseCount st :=
                         settled st (promiseCount st) @ [Reject NotConnected])\<rparr>)"
  by (auto simp: sendCommand_def settle_def Let_def)

lemma sendCommand_registered:
  "connected st \<Longrightarrow> wsPresent st \<Longrightarrow> wsOpen st \<Longrightarrow>
   commandId st \<notin> fst ` set (pendingCommands st) \<Longrightarrow>
     sendCommand command st =
       (promiseCount st,
        st\<lparr>promiseCount := promiseCount st + 1, commandId := commandId st + 1,
           pendingCommands := pendingCommands st @ [(commandId st, promiseCount st)],
           sent := sent st @ [(commandId st, command)],
           timers := timers st @ [(commandId st, promiseCount st)]\<rparr>)"
  by (simp add: sendCommand_def Let_def map_set_fresh)

lemma sendCommand_thrown:
  "connected st \<Longrightarrow> wsPresent st \<Longrightarrow> \<not> wsOpen st \<Longrightarrow>
   commandId st \<notin> fst ` set (pendingCommands st) \<Longrightarrow>
     sendCommand command st =
       (promiseCount st,
        st\<lparr>promiseCount := promiseCount st + 1, commandId := commandId st + 1,
           pendingCommands := pendingCommands st @ [(commandId st, promiseCount st)],
           settled := (settled st)(promiseCount st :=
                         settled st (promiseCount st) @ [Reject SendFailed])\<rparr>)"
  by (simp add: sendCommand_def settle_def Let_def map_set_fresh)

lemma consistent_sendCommand: "consistent st \<Longrightarrow> consistent (snd (sendCommand command st))"
proof -
  assume c: "consistent st"
  note b = consistent_pending_bounds [OF c] consistent_timer_bounds [OF c]
  have fresh_id: "(commandId st, q) \<notin> set (pendingCommands st)"
    "(commandId st, q) \<notin> set (timers st)" for q
    using b [of "commandId st" q] by auto
  have fresh_p: "(i, promiseCount st) \<notin> set (pendingCommands st)" for i
    using b(1) [of i "promiseCount st"] by auto
  have fp: "promiseCount st \<notin> snd ` set (pendingCommands st)"
    using fresh_p by force
  note fi = consistent_fresh [OF c]
  consider (off) "\<not> connected st \<or> \<not> wsPresent st"
    | (sent) "connected st" "wsPresent st" "wsOpen st"
    | (thrown) "connected st" "wsPresent st" "\<not> wsOpen st" by blast
  then show ?thesis
  proof cases
    case off
    from c show ?thesis
      unfolding sendCommand_rejected [OF off] consistent_def
      by (simp add: less_Suc_eq)
  next
    case sent
    from c show ?thesis
      unfolding sendCommand_registered [OF sent fi] consistent_def
      by (simp add: fresh_id fresh_p fp fi less_Suc_eq)
  next
    case thrown
    from c show ?thesis
      unfolding sendCommand_thrown [OF thrown fi] consistent_def
      by (simp add: fresh_id fresh_p fp fi less_Suc_eq)
  qed
qed

lemma settled_callback:
  "settled (callback p err res st) =
     (settled st)(p := settled st p @
        [case err of Some e \<Rightarrow> if e \<noteq> [] then Reject (ResponseError e) else Resolve res
                   | None \<Rightarrow> Resolve res])"
  by (simp add: callback_def settle_def split: option.split)

lemma callback_fields [simp]:
  "pendingCommands (callback p err res st) = pendingCommands st"
  "timers (callback p err res st) = timers st"
  "commandId (callback p err res st) = commandId st"
  "promiseCount (callback p err res st) = promiseCount st"
  "connected (callback p err res st) = connected st"
  "wsPresent (callback p err res st) = wsPresent st"
  "wsOpen (callback p err res st) = wsOpen st"
  "sent (callback p err res st) = sent st"
  by (simp_all add: callback_def settle_def split: option.split)

text \<open>Removing the entry of \<open>cid\<close> while settling its promise keeps the state consistent.\<close>

lemma consistent_settle_delete:
  assumes c: "consistent st" and m: "(cid, p) \<in> set (pendingCommands st)"
    and st': "pendingCommands st' = snd (map_delete cid (pendingCommands st))"
      "settled st' = (settled st)(p := settled st p @ [x])"
      "set (timers st') \<subseteq> set (timers st)"
      "commandId st' = commandId st" "promiseCount st' = promiseCount st"
  shows "consistent st'"
proof (rule consistentI)
  have sub: "set (pendingCommands st') \<subseteq> set (pendingCommands st)"
    by (auto simp: st'(1) set_map_delete)
  show "distinct (map fst (pendingCommands st'))" "distinct (map snd (pendingCommands st'))"
    using consistent_distinct [OF c]
    by (simp_all add: st'(1) map_delete_filter distinct_map_filter)
  show "i < commandId st' \<and> q < promiseCount st'" if "(i, q) \<in> set (pendingCommands st')" for i q
    using consistent_pending_bounds [OF c, of i q] that sub by (auto simp: st')
  show "i < commandId st' \<and> q < promiseCount st'" if "(i, q) \<in> set (timers st')" for i q
  proof -
    from that st'(3) have "(i, q) \<in> set (timers st)" by blast
    from consistent_timer_bounds [OF c this] show ?thesis by (simp add: st'(4,5))
  qed
  show "q = r" if "(i, q) \<in> set (pendingCommands st')" "(i, r) \<in> set (timers st')" for i q r
    using consistent_paired [OF c, of i q r] that sub st'(3) by auto
  show "settled st' q = []" if "promiseCount st' \<le> q" for q
  proof -
    from consistent_pending_bounds [OF c m] that have "q \<noteq> p" by (simp add: st')
    with that consistent_unsettled [OF c, of q] show ?thesis by (simp add: st')
  qed
  from consistent_positive [OF c] show "0 < commandId st'" by (simp add: st')
qed

lemma consistent_onResponse: "consistent st \<Longrightarrow> consistent (onResponse msg st)"
proof (cases msg)
  case (CommandResponse cid err res)
  assume c: "consistent st"
  show ?thesis
  proof (cases "cid \<noteq> 0 \<and> map_get (pendingCommands st) cid \<noteq> None")
    case True
    then obtain p where p: "map_get (pendingCommands st) cid = Some p" by auto
    then have m: "(cid, p) \<in> set (pendingCommands st)" by (rule map_get_SomeD)
    from True p have eq: "onResponse msg st =
        (callback p err res st)\<lparr>pendingCommands := snd (map_delete cid (pendingCommands st))\<rparr>"
      by (simp add: onResponse_def CommandResponse Let_def)
    show ?thesis
      unfolding eq
      by (rule consistent_settle_delete [OF c m]) (simp_all add: settled_callback)
  next
    case False
    with c show ?thesis
      by (auto simp: onResponse_def CommandResponse split: option.split)
  qed
qed (simp_all add: onResponse_def)

lemma timeout_pending:
  assumes c: "consistent st" and a: "(cid, p) \<in> set (timers st)"
    and h: "map_has (pendingCommands st) cid"
  shows "(cid, p) \<in> set (pendingCommands st)"
proof -
  from h obtain q where q: "(cid, q) \<in> set (pendingCommands st)"
    by (auto simp: map_has_iff)
  from consistent_paired [OF c q a] q show ?thesis by simp
qed

lemma onTimeout_fired:
  "(cid, p) \<in> set (timers st) \<Longrightarrow> map_has (pendingCommands st) cid \<Longrightarrow>
     onTimeout cid p st =
       settle p (Reject TimedOut)
         (st\<lparr>timers := removeAll (cid, p) (timers st),
             pendingCommands := snd (map_delete cid (pendingCommands st))\<rparr>)"
  by (simp add: onTimeout_def Let_def)

lemma onTimeout_late:
  "(cid, p) \<in> set (timers st) \<Longrightarrow> \<not> map_has (pendingCommands st) cid \<Longrightarrow>
     onTimeout cid p st = st\<lparr>timers := removeAll (cid, p) (timers st)\<rparr>"
  by (simp add: onTimeout_def Let_def)

lemma consistent_onTimeout: "consistent st \<Longrightarrow> consistent (onTimeout cid p st)"
proof -
  assume c: "consistent st"
  show ?thesis
  proof (cases "(cid, p) \<in> set (timers st)")
    case False
    with c show ?thesis by (simp add: onTimeout_def)
  next
    case armed: True
    show ?thesis
    proof (cases "map_has (pendingCommands st) cid")
      case True
      note m = timeout_pending [OF c armed True]
      show ?thesis
        unfolding onTimeout_fired [OF armed True]
        by (rule consistent_settle_delete [OF c m]) (auto simp: settle_def)
    next
      case False
      show ?thesis
        unfolding onTimeout_late [OF armed False]
        using c unfolding consistent_def by simp blast
    qed
  qed
qed

lemma rejectAll_fields [simp]:
  "timers (rejectAll ps st) = timers st"
  "commandId (rejectAll ps st) = commandId st"
  "promiseCount (rejectAll ps st) = promiseCount st"
  "connected (rejectAll ps st) = connected st"
  "wsPresent (rejectAll ps st) = wsPresent st"
  "wsOpen (rejectAll ps st) = wsOpen st"
  "sent (rejectAll ps st) = sent st"
  by (induction ps st rule: rejectAll.induct) (simp_all add: settle_def)

lemma rejectAll_pending:
  "pendingCommands (rejectAll ps st) = filter (\<lambda>e. fst e \<notin> fst ` set ps) (pendingCommands st)"
proof (induction ps st rule: rejectAll.induct)
  case (1 st)
  then show ?case by simp
next
  case (2 cid p rest st)
  then show ?case
    by (simp add: settle_def map_delete_filter)
qed

lemma rejectAll_settled:
  "distinct (map snd ps) \<Longrightarrow>
     settled (rejectAll ps st) q =
       (if q \<in> snd ` set ps then settled st q @ [Reject ConnectionClosed] else settled st q)"
proof (induction ps st rule: rejectAll.induct)
  case (1 st)
  then show ?case by simp
next
  case (2 cid p rest st)
  then show ?case by (auto simp: settle_def image_iff)
qed

lemma onClosed_pending: "pendingCommands (onClosed st) = []"
  by (simp add: onClosed_def rejectAll_pending filter_empty_conv)

lemma onClosed_settled:
  "distinct (map snd (pendingCommands st)) \<Longrightarrow>
     settled (onClosed st) q =
       (if q \<in> snd ` set (pendingCommands st) then settled st q @ [Reject ConnectionClosed]
        else settled st q)"
  by (simp add: onClosed_def rejectAll_settled)

lemma onClosed_fields [simp]:
  "timers (onClosed st) = timers st"
  "commandId (onClosed st) = commandId st"
  "promiseCount (onClosed st) = promiseCount st"
  by (simp_all add: onClosed_def)

lemma consistent_onClosed: "consistent st \<Longrightarrow> consistent (onClosed st)"
proof -
  assume c: "consistent st"
  note d = consistent_distinct(2) [OF c]
  show ?thesis
  proof (rule consistentI)
    show "settled (onClosed st) q = []" if "promiseCount (onClosed st) \<le> q" for q
    proof -
      from that have le: "promiseCount st \<le> q" by simp
      have "q \<notin> snd ` set (pendingCommands st)"
      proof
        assume "q \<in> snd ` set (pendingCommands st)"
        then obtain i where "(i, q) \<in> set (pendingCommands st)" by force
        from consistent_pending_bounds [OF c this] le show False by simp
      qed
      with consistent_unsettled [OF c le] show ?thesis by (simp add: onClosed_settled [OF d])
    qed
    show "i < commandId (onClosed st) \<and> q < promiseCount (onClosed st)"
      if "(i, q) \<in> set (timers (onClosed st))" for i q
      using consistent_timer_bounds [OF c, of i q] that by simp
    from consistent_positive [OF c] show "0 < commandId (onClosed st)" by simp
  qed (simp_all add: onClosed_pending)
qed

lemma consistent_flags:
  "consistent st \<Longrightarrow> consistent (st\<lparr>wsOpen := b\<rparr>)"
  "consistent st \<Longrightarrow> consistent (onConnected st)"
  by (simp_all add: consistent_def onConnected_def)

lemma consistent_step: "consistent st \<Longrightarrow> consistent (step st e)"
  by (cases e)
     (simp_all add: consistent_sendCommand consistent_onResponse consistent_onClosed
        consistent_onTimeout consistent_flags)

lemma consistent_run: "consistent st \<Longrightarrow> consistent (run es st)"
  unfolding run_def by (induction es arbitrary: st) (simp_all add: consistent_step)

subsection \<open>Following one call\<close>

text \<open>
  For a call that got id \<open>cid\<close> and promise \<open>p\<close> and whose command was sent:
  the promise has been settled at most once; while it is unsettled its entry is in
  \<open>pendingCommands\<close> and its timer is running; once it is settled neither the id
  nor the promise is pending.
\<close>

definition tracked :: "nat \<Rightarrow> nat \<Rightarrow> client \<Rightarrow> bool" where
  "tracked cid p st \<longleftrightarrow>
     0 < cid \<and> cid < commandId st \<and> p < promiseCount st
     \<and> length (settled st p) \<le> 1
     \<and> (settled st p = [] \<longrightarrow>
           (cid, p) \<in> set (pendingCommands st) \<and> (cid, p) \<in> set (timers st))
     \<and> (settled st p \<noteq> [] \<longrightarrow>
           cid \<notin> fst ` set (pendingCommands st) \<and> p \<notin> snd ` set (pendingCommands st))"

text \<open>
  A promise that was settled without an entry, or whose entry has been removed, is
  settled by no later event.
\<close>

definition retired :: "nat \<Rightarrow> client \<Rightarrow> bool" where
  "retired p st \<longleftrightarrow> p < promiseCount st \<and> p \<notin> snd ` set (pendingCommands st)"

lemma trackedI:
  "0 < cid \<Longrightarrow> cid < commandId st \<Longrightarrow> p < promiseCount st \<Longrightarrow>
   length (settled st p) \<le> 1 \<Longrightarrow>
   (settled st p = [] \<Longrightarrow> (cid, p) \<in> set (pendingCommands st)) \<Longrightarrow>
   (settled st p = [] \<Longrightarrow> (cid, p) \<in> set (timers st)) \<Longrightarrow>
   (\<And>q. settled st p \<noteq> [] \<Longrightarrow> (cid, q) \<in> set (pendingCommands st) \<Longrightarrow> False) \<Longrightarrow>
   (\<And>i. settled st p \<noteq> [] \<Longrightarrow> (i, p) \<in> set (pendingCommands st) \<Longrightarrow> False) \<Longrightarrow>
   tracked cid p st"
  unfolding tracked_def by force

lemma tracked_bounds:
  "tracked cid p st \<Longrightarrow> 0 < cid \<and> cid < commandId st \<and> p < promiseCount st"
  unfolding tracked_def by blast

lemma tracked_once: "tracked cid p st \<Longrightarrow> length (settled st p) \<le> 1"
  unfolding tracked_def by blast

lemma tracked_pending:
  "tracked cid p st \<Longrightarrow> settled st p = [] \<Longrightarrow> (cid, p) \<in> set (pendingCommands st)"
  unfolding tracked_def by blast

lemma tracked_timer:
  "tracked cid p st \<Longrightarrow> settled st p = [] \<Longrightarrow> (cid, p) \<in> set (timers st)"
  unfolding tracked_def by blast

lemma tracked_id_unsettled:
  "tracked cid p st \<Longrightarrow> (cid, q) \<in> set (pendingCommands st) \<Longrightarrow> settled st p = []"
  unfolding tracked_def by force

lemma tracked_promise_unsettled:
  "tracked cid p st \<Longrightarrow> (i, p) \<in> set (pendingCommands st) \<Longrightarrow> settled st p = []"
  unfolding tracked_def by force

text \<open>A pending entry has the id of the call exactly when it has its promise.\<close>

lemma tracked_separate:
  assumes c: "consistent st" and t: "tracked cid p st"
    and m: "(i, q) \<in> set (pendingCommands st)"
  shows "(i = cid) = (q = p)"
proof
  assume i: "i = cid"
  with m have "settled st p = []" by (auto dest: tracked_id_unsettled [OF t])
  then have "(cid, p) \<in> set (pendingCommands st)" by (rule tracked_pending [OF t])
  with m i show "q = p" by (auto dest: distinct_fst_value [OF consistent_distinct(1) [OF c]])
next
  assume q: "q = p"
  with m have "settled st p = []" by (auto dest: tracked_promise_unsettled [OF t])
  then have "(cid, p) \<in> set (pendingCommands st)" by (rule tracked_pending [OF t])
  with m q show "i = cid" by (auto dest: distinct_snd_key [OF consistent_distinct(2) [OF c]])
qed

lemma tracked_frame:
  assumes t: "tracked cid p st"
    and "promiseCount st \<le> promiseCount st'" and "commandId st \<le> commandId st'"
    and "settled st' p = settled st p"
    and "\<And>q. (cid, q) \<in> set (pendingCommands st') \<Longrightarrow> (cid, q) \<in> set (pendingCommands st)"
    and "\<And>i. (i, p) \<in> set (pendingCommands st') \<Longrightarrow> (i, p) \<in> set (pendingCommands st)"
    and "(cid, p) \<in> set (pendingCommands st) \<Longrightarrow> (cid, p) \<in> set (pendingCommands st')"
    and "settled st p = [] \<Longrightarrow> (cid, p) \<in> set (timers st')"
  shows "tracked cid p st'"
proof (rule trackedI)
  from tracked_bounds [OF t] assms(2,3)
  show "0 < cid" "cid < commandId st'" "p < promiseCount st'" by simp_all
  from tracked_once [OF t] show "length (settled st' p) \<le> 1" by (simp add: assms(4))
  show "(cid, p) \<in> set (pendingCommands st')" if "settled st' p = []"
  proof -
    from that have "settled st p = []" by (simp add: assms(4))
    then have "(cid, p) \<in> set (pendingCommands st)" by (rule tracked_pending [OF t])
    then show ?thesis by (rule assms(7))
  qed
  show "(cid, p) \<in> set (timers st')" if "settled st' p = []"
  proof -
    from that have "settled st p = []" by (simp add: assms(4))
    then show ?thesis by (rule assms(8))
  qed
  show False if "settled st' p \<noteq> []" "(cid, q) \<in> set (pendingCommands st')" for q
  proof -
    from that(2) have "(cid, q) \<in> set (pendingCommands st)" by (rule assms(5))
    then have "settled st p = []" by (rule tracked_id_unsettled [OF t])
    with that(1) show False by (simp add: assms(4))
  qed
  show False if "settled st' p \<noteq> []" "(i, p) \<in> set (pendingCommands st')" for i
  proof -
    from that(2) have "(i, p) \<in> set (pendingCommands st)" by (rule assms(6))
    then have "settled st p = []" by (rule tracked_promise_unsettled [OF t])
    with that(1) show False by (simp add: assms(4))
  qed
qed

text \<open>
  Settling the promise of a pending entry and deleting the entry: it is the entry
  of the call, which is then settled once, or it has another id and another
  promise.
\<close>

lemma tracked_settle_delete:
  assumes c: "consistent st" and t: "tracked cid p st"
    and m: "(cid', q) \<in> set (pendingCommands st)"
    and st': "pendingCommands st' = snd (map_delete cid' (pendingCommands st))"
      "settled st' = (settled st)(q := settled st q @ [x])"
      "commandId st' = commandId st" "promiseCount st' = promiseCount st"
    and tm: "\<And>e. e \<in> set (timers st) \<Longrightarrow> e \<noteq> (cid', q) \<Longrightarrow> e \<in> set (timers st')"
  shows "tracked cid p st'"
proof (cases "q = p")
  case True
  with tracked_separate [OF c t m] have same: "cid' = cid" "q = p" by simp_all
  from m same have u: "settled st p = []" by (auto dest: tracked_promise_unsettled [OF t])
  have s': "settled st' p = [x]" by (simp add: st'(2) same u)
  show ?thesis
  proof (rule trackedI)
    from tracked_bounds [OF t]
    show "0 < cid" "cid < commandId st'" "p < promiseCount st'" by (simp_all add: st')
    show "length (settled st' p) \<le> 1" by (simp add: s')
    show "(cid, p) \<in> set (pendingCommands st')" if "settled st' p = []"
      using that by (simp add: s')
    show "(cid, p) \<in> set (timers st')" if "settled st' p = []"
      using that by (simp add: s')
    show False if "(cid, r) \<in> set (pendingCommands st')" for r
      using that by (simp add: st'(1) same set_map_delete)
    show False if "(i, p) \<in> set (pendingCommands st')" for i
    proof -
      from that have ip: "(i, p) \<in> set (pendingCommands st)" "i \<noteq> cid"
        by (simp_all add: st'(1) same set_map_delete)
      from tracked_separate [OF c t ip(1)] ip(2) show False by simp
    qed
  qed
next
  case False
  with tracked_separate [OF c t m] have other: "cid' \<noteq> cid" "q \<noteq> p" by simp_all
  show ?thesis
  proof (rule tracked_frame [OF t])
    show "settled st' p = settled st p" using other by (simp add: st'(2))
    show "(cid, p) \<in> set (timers st')" if "settled st p = []"
    proof -
      from that have "(cid, p) \<in> set (timers st)" by (rule tracked_timer [OF t])
      moreover from other have "(cid, p) \<noteq> (cid', q)" by simp
      ultimately show ?thesis by (rule tm)
    qed
  qed (use other in \<open>simp_all add: st' set_map_delete\<close>)
qed

lemma tracked_sendCommand:
  assumes c: "consistent st" and t: "tracked cid p st"
  shows "tracked cid p (snd (sendCommand command st))"
proof -
  note b = tracked_bounds [OF t]
  note fi = consistent_fresh [OF c]
  consider (off) "\<not> connected st \<or> \<not> wsPresent st"
    | (sent) "connected st" "wsPresent st" "wsOpen st"
    | (thrown) "connected st" "wsPresent st" "\<not> wsOpen st" by blast
  then show ?thesis
  proof cases
    case off
    show ?thesis
      unfolding sendCommand_rejected [OF off]
      using b by (intro tracked_frame [OF t]) (simp_all add: tracked_timer [OF t])
  next
    case sent
    show ?thesis
      unfolding sendCommand_registered [OF sent fi]
      using b by (intro tracked_frame [OF t]) (auto simp: tracked_timer [OF t])
  next
    case thrown
    show ?thesis
      unfolding sendCommand_thrown [OF thrown fi]
      using b by (intro tracked_frame [OF t]) (auto simp: tracked_timer [OF t])
  qed
qed

lemma tracked_onResponse:
  assumes c: "consistent st" and t: "tracked cid p st"
  shows "tracked cid p (onResponse msg st)"
proof (cases msg)
  case (CommandResponse cid' err res)
  show ?thesis
  proof (cases "cid' \<noteq> 0 \<and> map_get (pendingCommands st) cid' \<noteq> None")
    case True
    then obtain q where q: "map_get (pendingCommands st) cid' = Some q" by auto
    then have m: "(cid', q) \<in> set (pendingCommands st)" by (rule map_get_SomeD)
    from True q have eq: "onResponse msg st =
        (callback q err res st)\<lparr>pendingCommands := snd (map_delete cid' (pendingCommands st))\<rparr>"
      by (simp add: onResponse_def CommandResponse Let_def)
    show ?thesis
      unfolding eq
      by (rule tracked_settle_delete [OF c t m]) (simp_all add: settled_callback)
  next
    case False
    then have "onResponse msg st = st"
      by (auto simp: onResponse_def CommandResponse split: option.split)
    with t show ?thesis by simp
  qed
qed (use t in \<open>simp_all add: onResponse_def\<close>)

lemma tracked_onClosed:
  assumes c: "consistent st" and t: "tracked cid p st"
  shows "tracked cid p (onClosed st)"
proof (rule trackedI)
  note d = consistent_distinct(2) [OF c]
  from tracked_bounds [OF t]
  show "0 < cid" "cid < commandId (onClosed st)" "p < promiseCount (onClosed st)"
    by simp_all
  have settled_p: "settled (onClosed st) p \<noteq> [] \<and> length (settled (onClosed st) p) \<le> 1"
  proof (cases "settled st p = []")
    case True
    then have "(cid, p) \<in> set (pendingCommands st)" by (rule tracked_pending [OF t])
    then have "p \<in> snd ` set (pendingCommands st)" by force
    with True show ?thesis by (simp add: onClosed_settled [OF d])
  next
    case False
    have "p \<notin> snd ` set (pendingCommands st)"
    proof
      assume "p \<in> snd ` set (pendingCommands st)"
      then obtain i where "(i, p) \<in> set (pendingCommands st)" by force
      then have "settled st p = []" by (rule tracked_promise_unsettled [OF t])
      with False show False by simp
    qed
    with False tracked_once [OF t] show ?thesis by (simp add: onClosed_settled [OF d])
  qed
  then show "length (settled (onClosed st) p) \<le> 1" by simp
  show "(cid, p) \<in> set (pendingCommands (onClosed st))" if "settled (onClosed st) p = []"
    using that settled_p by simp
  show "(cid, p) \<in> set (timers (onClosed st))" if "settled (onClosed st) p = []"
    using that settled_p by simp
  show False if "(cid, q) \<in> set (pendingCommands (onClosed st))" for q
    using that by (simp add: onClosed_pending)
  show False if "(i, p) \<in> set (pendingCommands (onClosed st))" for i
    using that by (simp add: onClosed_pending)
qed

lemma tracked_onTimeout:
  assumes c: "consistent st" and t: "tracked cid p st"
  shows "tracked cid p (onTimeout cid' p' st)"
proof (cases "(cid', p') \<in> set (timers st)")
  case False
  with t show ?thesis by (simp add: onTimeout_def)
next
  case armed: True
  show ?thesis
  proof (cases "map_has (pendingCommands st) cid'")
    case True
    note m = timeout_pending [OF c armed True]
    show ?thesis
      unfolding onTimeout_fired [OF armed True]
      by (rule tracked_settle_delete [OF c t m]) (auto simp: settle_def)
  next
    case False
    show ?thesis
      unfolding onTimeout_late [OF armed False]
    proof (rule tracked_frame [OF t])
      show "(cid, p) \<in> set (timers (st\<lparr>timers := removeAll (cid', p') (timers st)\<rparr>))"
        if u: "settled st p = []"
      proof -
        from u have "(cid, p) \<in> set (pendingCommands st)" by (rule tracked_pending [OF t])
        then have "map_has (pendingCommands st) cid" by (force simp: map_has_iff)
        with False have "cid \<noteq> cid'" by auto
        with tracked_timer [OF t u] show ?thesis by simp
      qed
    qed simp_all
  qed
qed

lemma tracked_flags:
  "tracked cid p (st\<lparr>wsOpen := b\<rparr>) = tracked cid p st"
  "tracked cid p (onConnected st) = tracked cid p st"
  by (simp_all add: tracked_def onConnected_def)

lemma tracked_step:
  "consistent st \<Longrightarrow> tracked cid p st \<Longrightarrow> tracked cid p (step st e)"
proof (cases e)
  case Closed
  assume "consistent st" "tracked cid p st"
  then have "consistent (st\<lparr>wsOpen := False\<rparr>)" "tracked cid p (st\<lparr>wsOpen := False\<rparr>)"
    by (simp_all add: consistent_flags tracked_flags)
  then show ?thesis unfolding Closed step.simps by (rule tracked_onClosed)
qed (simp_all add: tracked_sendCommand tracked_onResponse tracked_onTimeout tracked_flags)

lemma run_append: "run (xs @ ys) st = run ys (run xs st)"
  by (simp add: run_def)

lemma run_Cons: "run (e # es) st = run es (step st e)"
  by (simp add: run_def)

lemma tracked_run:
  "consistent st \<Longrightarrow> tracked cid p st \<Longrightarrow> tracked cid p (run es st)"
proof (induction es arbitrary: st)
  case Nil
  then show ?case by (simp add: run_def)
next
  case (Cons e es)
  from Cons.prems have "consistent (step st e)" "tracked cid p (step st e)"
    by (simp_all only: consistent_step tracked_step)
  then have "tracked cid p (run es (step st e))" by (rule Cons.IH)
  then show ?case by (simp only: run_Cons)
qed

lemma rejectAll_prefix: "prefix (settled st q) (settled (rejectAll ps st) q)"
proof (induction ps st rule: rejectAll.induct)
  case (1 st)
  then show ?case by simp
next
  case (2 cid p rest st)
  have "prefix (settled st q)
          (settled ((settle p (Reject ConnectionClosed) st)
             \<lparr>pendingCommands := snd (map_delete cid (pendingCommands st))\<rparr>) q)"
    by (simp add: settle_def)
  with 2 show ?case by (simp del: fun_upd_apply)
qed

lemma settled_step_prefix: "prefix (settled st q) (settled (step st e) q)"
proof (cases e)
  case (Call command)
  then show ?thesis by (simp add: sendCommand_def settle_def Let_def)
next
  case (Message msg)
  then show ?thesis
    by (cases msg) (simp_all add: onResponse_def settled_callback Let_def split: option.split)
next
  case Closing
  then show ?thesis by simp
next
  case Closed
  with rejectAll_prefix [of "st\<lparr>wsOpen := False, connected := False\<rparr>" q "pendingCommands st"]
  show ?thesis by (simp add: onClosed_def)
next
  case (Timeout cid p)
  then show ?thesis by (simp add: onTimeout_def settle_def Let_def)
next
  case ConnectionUp
  then show ?thesis by (simp add: onConnected_def)
qed

lemma settled_run_prefix: "prefix (settled st q) (settled (run es st) q)"
  unfolding run_def
proof (induction es arbitrary: st)
  case Nil
  then show ?case by simp
next
  case (Cons e es)
  from settled_step_prefix [of st q e] Cons [of "step st e"] show ?case
    by (simp del: step.simps)
qed

lemma pending_transitions:
  assumes c: "consistent st" and t: "tracked cid p st" and u: "settled st p = []"
  shows "settled (step st (Message (CommandResponse cid None res))) p = [Resolve res]"
    and "e \<noteq> [] \<Longrightarrow>
      settled (step st (Message (CommandResponse cid (Some e) res))) p = [Reject (ResponseError e)]"
    and "settled (step st Closed) p = [Reject ConnectionClosed]"
    and "settled (step st (Timeout cid p)) p = [Reject TimedOut]"
    and "map_get (pendingCommands st) cid = Some p"
    and "(cid, p) \<in> set (timers st)"
proof -
  from u have m: "(cid, p) \<in> set (pendingCommands st)" by (rule tracked_pending [OF t])
  note d = consistent_distinct [OF c]
  from d(1) m show g: "map_get (pendingCommands st) cid = Some p" by (rule map_get_SomeI)
  from tracked_bounds [OF t] have pos: "cid \<noteq> 0" by simp
  from u show armed: "(cid, p) \<in> set (timers st)" by (rule tracked_timer [OF t])
  from g pos u show "settled (step st (Message (CommandResponse cid None res))) p = [Resolve res]"
    by (simp add: onResponse_def settled_callback Let_def)
  from g pos u show "settled (step st (Message (CommandResponse cid (Some e) res))) p
      = [Reject (ResponseError e)]" if "e \<noteq> []"
    using that by (simp add: onResponse_def settled_callback Let_def)
  from m have "p \<in> snd ` set (pendingCommands st)" by force
  with u d(2) show "settled (step st Closed) p = [Reject ConnectionClosed]"
    by (simp add: onClosed_settled)
  from m have "map_has (pendingCommands st) cid" by (force simp: map_has_iff)
  with armed u show "settled (step st (Timeout cid p)) p = [Reject TimedOut]"
    by (simp add: onTimeout_def settle_def Let_def)
qed

lemma settled_absent:
  assumes t: "tracked cid p st" and s: "settled st p \<noteq> []"
  shows "\<not> map_has (pendingCommands st) cid"
proof
  assume "map_has (pendingCommands st) cid"
  then obtain q where "(cid, q) \<in> set (pendingCommands st)" by (auto simp: map_has_iff)
  then have "settled st p = []" by (rule tracked_id_unsettled [OF t])
  with s show False by simp
qed

lemma prefix_nonempty: "prefix xs ys \<Longrightarrow> xs \<noteq> [] \<Longrightarrow> ys \<noteq> []"
  by (auto simp: prefix_def)

lemma timeout_settles:
  assumes c: "consistent st" and t: "tracked cid p st"
  shows "settled (step st (Timeout cid p)) p \<noteq> []"
proof (cases "settled st p = []")
  case True
  from pending_transitions(4) [OF c t True] show ?thesis by simp
next
  case False
  with settled_step_prefix [of st p "Timeout cid p"] show ?thesis
    by (rule prefix_nonempty)
qed

lemma timeout_in_run:
  assumes c: "consistent st" and t: "tracked cid p st" and e: "Timeout cid p \<in> set es"
  shows "settled (run es st) p \<noteq> []"
proof -
  from e obtain xs ys where es: "es = xs @ Timeout cid p # ys" by (auto dest: split_list)
  define s1 where "s1 = run xs st"
  have c1: "consistent s1" and t1: "tracked cid p s1"
    unfolding s1_def using c t by (simp_all only: consistent_run tracked_run)
  have "settled (step s1 (Timeout cid p)) p \<noteq> []" by (rule timeout_settles [OF c1 t1])
  with settled_run_prefix [of "step s1 (Timeout cid p)" p ys]
  have "settled (run ys (step s1 (Timeout cid p))) p \<noteq> []" by (rule prefix_nonempty)
  moreover have "run es st = run ys (step s1 (Timeout cid p))"
    by (simp add: es run_append run_Cons s1_def)
  ultimately show ?thesis by simp
qed

lemma retired_step:
  assumes c: "consistent st" and r: "retired p st"
  shows "retired p (step st e)" and "settled (step st e) p = settled st p"
proof -
  from r have b: "p < promiseCount st" and no: "\<And>i. (i, p) \<notin> set (pendingCommands st)"
    unfolding retired_def by force+
  have both: "retired p (step st e) \<and> settled (step st e) p = settled st p"
  proof (cases e)
    case (Call command)
    note fi = consistent_fresh [OF c]
    consider (off) "\<not> connected st \<or> \<not> wsPresent st"
      | (sent) "connected st" "wsPresent st" "wsOpen st"
      | (thrown) "connected st" "wsPresent st" "\<not> wsOpen st" by blast
    then show ?thesis
    proof cases
      case off
      from r b show ?thesis
        unfolding Call step.simps sendCommand_rejected [OF off] retired_def by simp
    next
      case sent
      from r b show ?thesis
        unfolding Call step.simps sendCommand_registered [OF sent fi] retired_def by simp
    next
      case thrown
      from r b show ?thesis
        unfolding Call step.simps sendCommand_thrown [OF thrown fi] retired_def by simp
    qed
  next
    case (Message msg)
    show ?thesis
    proof (cases msg)
      case (CommandResponse cid' err res)
      show ?thesis
      proof (cases "cid' \<noteq> 0 \<and> map_get (pendingCommands st) cid' \<noteq> None")
        case True
        then obtain q where q: "map_get (pendingCommands st) cid' = Some q" by auto
        then have m: "(cid', q) \<in> set (pendingCommands st)" by (rule map_get_SomeD)
        with no have "q \<noteq> p" by auto
        with True q r show ?thesis
          unfolding Message CommandResponse retired_def
          by (auto simp: onResponse_def settled_callback Let_def set_map_delete)
      next
        case False
        then have "onResponse msg st = st"
          by (auto simp: onResponse_def CommandResponse split: option.split)
        with r show ?thesis unfolding Message by simp
      qed
    qed (use r in \<open>simp_all add: Message onResponse_def\<close>)
  next
    case Closing
    with r show ?thesis by (simp add: retired_def)
  next
    case Closed
    from r have "p \<notin> snd ` set (pendingCommands st)" unfolding retired_def by blast
    with b consistent_distinct(2) [OF c] show ?thesis
      unfolding Closed by (simp add: retired_def onClosed_pending onClosed_settled)
  next
    case (Timeout cid' p')
    show ?thesis
    proof (cases "(cid', p') \<in> set (timers st)")
      case False
      with r show ?thesis unfolding Timeout by (simp add: onTimeout_def)
    next
      case armed: True
      show ?thesis
      proof (cases "map_has (pendingCommands st) cid'")
        case True
        from timeout_pending [OF c armed True] no have "p' \<noteq> p" by auto
        with r show ?thesis
          unfolding Timeout step.simps onTimeout_fired [OF armed True] retired_def
          by (auto simp: settle_def set_map_delete)
      next
        case False
        with r show ?thesis
          unfolding Timeout step.simps onTimeout_late [OF armed False] retired_def by simp
      qed
    qed
  next
    case ConnectionUp
    with r show ?thesis by (simp add: retired_def onConnected_def)
  qed
  then show "retired p (step st e)" and "settled (step st e) p = settled st p" by simp_all
qed

lemma retired_run:
  "consistent st \<Longrightarrow> retired p st \<Longrightarrow> settled (run es st) p = settled st p"
proof (induction es arbitrary: st)
  case Nil
  then show ?case by (simp add: run_def)
next
  case (Cons e es)
  from Cons.prems have "consistent (step st e)" "retired p (step st e)"
    by (simp_all only: consistent_step retired_step(1))
  then have "settled (run es (step st e)) p = settled (step st e) p" by (rule Cons.IH)
  with retired_step(2) [OF Cons.prems] show ?case by (simp only: run_Cons)
qed

lemma sendCommand_disconnected_settles:
  assumes c: "consistent st" and no: "\<not> (connected st \<and> wsPresent st)"
    and p: "p = fst (sendCommand command st)" and st1: "st1 = snd (sendCommand command st)"
    and st2: "st2 = run rest st1"
  shows "settled st1 p = [Reject NotConnected]"
    and "pendingCommands st1 = pendingCommands st" and "timers st1 = timers st"
    and "sent st1 = sent st" and "commandId st1 = commandId st"
    and "settled st2 p = [Reject NotConnected]"
proof -
  from c have fresh: "settled st (promiseCount st) = []" by (simp add: consistent_unsettled)
  from c have c1: "consistent st1" unfolding st1 by (rule consistent_sendCommand)
  from no have "\<not> connected st \<or> \<not> wsPresent st" by simp
  note eq = sendCommand_rejected [OF this, of command]
  from fresh show s1: "settled st1 p = [Reject NotConnected]"
    by (simp add: st1 p eq)
  show "pendingCommands st1 = pendingCommands st" "timers st1 = timers st"
    "sent st1 = sent st" "commandId st1 = commandId st"
    by (simp_all add: st1 eq)
  have "promiseCount st \<notin> snd ` set (pendingCommands st)"
  proof
    assume "promiseCount st \<in> snd ` set (pendingCommands st)"
    then obtain i where "(i, promiseCount st) \<in> set (pendingCommands st)" by force
    from consistent_pending_bounds [OF c this] show False by simp
  qed
  then have "retired p st1" by (simp add: retired_def st1 p eq)
  from retired_run [OF c1 this, of rest] s1 show "settled st2 p = [Reject NotConnected]"
    by (simp add: st2)
qed

lemma sendCommand_connected_registers:
  assumes c: "consistent st" and yes: "connected st" "wsPresent st" "wsOpen st"
    and p: "p = fst (sendCommand command st)" and st1: "st1 = snd (sendCommand command st)"
    and cid: "cid = commandId st"
  shows "settled st1 p = []" and "map_get (pendingCommands st1) cid = Some p"
    and "(cid, p) \<in> set (timers st1)" and "sent st1 = sent st @ [(cid, command)]"
    and "tracked cid p st1"
proof -
  from c have fresh: "settled st (promiseCount st) = []" by (simp add: consistent_unsettled)
  from c have c1: "consistent st1" unfolding st1 by (rule consistent_sendCommand)
  note d = consistent_distinct(1) [OF c1]
  note eq = sendCommand_registered [OF yes consistent_fresh [OF c], of command]
  from fresh show u: "settled st1 p = []" by (simp add: st1 p eq)
  show a: "(cid, p) \<in> set (timers st1)" and "sent st1 = sent st @ [(cid, command)]"
    by (simp_all add: st1 p cid eq)
  have m: "(cid, p) \<in> set (pendingCommands st1)" by (simp add: st1 p cid eq)
  from d m show g: "map_get (pendingCommands st1) cid = Some p" by (rule map_get_SomeI)
  show "tracked cid p st1"
  proof (rule trackedI)
    from consistent_positive [OF c]
    show "0 < cid" "cid < commandId st1" "p < promiseCount st1"
      by (simp_all add: st1 p cid eq)
    show "length (settled st1 p) \<le> 1" by (simp add: u)
    show "(cid, p) \<in> set (pendingCommands st1)" by (fact m)
    show "(cid, p) \<in> set (timers st1)" by (fact a)
    show False if "settled st1 p \<noteq> []" using that u by simp
    show False if "settled st1 p \<noteq> []" using that u by simp
  qed
qed

lemma sendCommand_connected_throws:
  assumes c: "consistent st" and yes: "connected st" "wsPresent st" "\<not> wsOpen st"
    and p: "p = fst (sendCommand command st)" and st1: "st1 = snd (sendCommand command st)"
    and cid: "cid = commandId st"
  shows "settled st1 p = [Reject SendFailed]" and "map_get (pendingCommands st1) cid = Some p"
    and "timers st1 = timers st" and "sent st1 = sent st"
proof -
  from c have fresh: "settled st (promiseCount st) = []" by (simp add: consistent_unsettled)
  from c have c1: "consistent st1" unfolding st1 by (rule consistent_sendCommand)
  note d = consistent_distinct(1) [OF c1]
  note eq = sendCommand_thrown [OF yes consistent_fresh [OF c], of command]
  from fresh show "settled st1 p = [Reject SendFailed]" by (simp add: st1 p eq)
  show "timers st1 = timers st" "sent st1 = sent st" by (simp_all add: st1 eq)
  have m: "(cid, p) \<in> set (pendingCommands st1)" by (simp add: st1 p cid eq)
  from d m show "map_get (pendingCommands st1) cid = Some p" by (rule map_get_SomeI)
qed

text \<open>
  The paths of \<open>sendCommand\<close>, one by one. Take any history \<open>before\<close> of the
  client, a call of \<open>sendCommand\<close> in the state it leads to, and any events
  \<open>rest\<close> after the call. Called while not connected, \<open>sendCommand\<close> rejects the
  promise at once, registers no pending entry, starts no timer and sends nothing,
  and the promise is never settled again. Called while connected on an open
  connection, it registers the promise under a fresh id, sends the command and
  starts the timer; from then on the promise is settled at most once, a settled
  promise has no pending entry, and once the timer of the call has fired the
  promise is settled exactly once. While the promise is unsettled its entry is
  pending and its timer is running, and the next event settles it as follows: a
  \<open>command_response\<close> with its id resolves it when the response has no error and
  rejects it with the response's error otherwise, the close of the connection
  rejects it, and the timer rejects it. Called while connected on a connection that
  is not open, it rejects the promise with the exception of \<open>ws.send\<close> and leaves
  the entry in \<open>pendingCommands\<close>, with no timer started and nothing sent.
\<close>

theorem sendCommand_paths:
  assumes st: "st = run before start"
    and p: "p = fst (sendCommand command st)" and st1: "st1 = snd (sendCommand command st)"
    and cid: "cid = commandId st" and st2: "st2 = run rest st1"
  shows
    "(\<not> (connected st \<and> wsPresent st) \<longrightarrow>
        settled st1 p = [Reject NotConnected]
        \<and> pendingCommands st1 = pendingCommands st \<and> timers st1 = timers st
        \<and> sent st1 = sent st \<and> commandId st1 = commandId st
        \<and> settled st2 p = [Reject NotConnected])
     \<and> (connected st \<and> wsPresent st \<and> wsOpen st \<longrightarrow>
        settled st1 p = [] \<and> map_get (pendingCommands st1) cid = Some p
        \<and> (cid, p) \<in> set (timers st1) \<and> sent st1 = sent st @ [(cid, command)]
        \<and> length (settled st2 p) \<le> 1
        \<and> (settled st2 p \<noteq> [] \<longrightarrow> \<not> map_has (pendingCommands st2) cid)
        \<and> (Timeout cid p \<in> set rest \<longrightarrow> length (settled st2 p) = 1)
        \<and> (settled st2 p = [] \<longrightarrow>
              map_get (pendingCommands st2) cid = Some p \<and> (cid, p) \<in> set (timers st2)
              \<and> settled (step st2 (Message (CommandResponse cid None res))) p = [Resolve res]
              \<and> (e \<noteq> [] \<longrightarrow>
                    settled (step st2 (Message (CommandResponse cid (Some e) res))) p
                      = [Reject (ResponseError e)])
              \<and> settled (step st2 Closed) p = [Reject ConnectionClosed]
              \<and> settled (step st2 (Timeout cid p)) p = [Reject TimedOut]))
     \<and> (connected st \<and> wsPresent st \<and> \<not> wsOpen st \<longrightarrow>
        settled st1 p = [Reject SendFailed] \<and> map_get (pendingCommands st1) cid = Some p
        \<and> timers st1 = timers st \<and> sent st1 = sent st)"
    (is "(?off \<longrightarrow> ?A) \<and> (?on \<longrightarrow> ?B) \<and> (?half \<longrightarrow> ?C)")
proof (intro conjI impI)
  have c: "consistent st" unfolding st by (rule consistent_run [OF consistent_start])
  then have c1: "consistent st1" unfolding st1 by (rule consistent_sendCommand)
  then have c2: "consistent st2" unfolding st2 by (rule consistent_run)
  {
    assume ?off
    from sendCommand_disconnected_settles [OF c this p st1 st2]
    show "settled st1 p = [Reject NotConnected]"
      "pendingCommands st1 = pendingCommands st" "timers st1 = timers st"
      "sent st1 = sent st" "commandId st1 = commandId st"
      "settled st2 p = [Reject NotConnected]" .
  }
  {
    assume ?half
    then have yes: "connected st" "wsPresent st" "\<not> wsOpen st" by simp_all
    from sendCommand_connected_throws [OF c yes p st1 cid]
    show "settled st1 p = [Reject SendFailed]" "map_get (pendingCommands st1) cid = Some p"
      "timers st1 = timers st" "sent st1 = sent st" .
  }
  {
    assume ?on
    then have yes: "connected st" "wsPresent st" "wsOpen st" by simp_all
    note reg = sendCommand_connected_registers [OF c yes p st1 cid]
    from reg(5) have t2: "tracked cid p st2" unfolding st2 by (rule tracked_run [OF c1])
    from reg(1-4)
    show "settled st1 p = []" "map_get (pendingCommands st1) cid = Some p"
      "(cid, p) \<in> set (timers st1)" "sent st1 = sent st @ [(cid, command)]" .
    show once: "length (settled st2 p) \<le> 1" by (rule tracked_once [OF t2])
    show "\<not> map_has (pendingCommands st2) cid" if "settled st2 p \<noteq> []"
      using t2 that by (rule settled_absent)
    show "length (settled st2 p) = 1" if "Timeout cid p \<in> set rest"
    proof -
      from timeout_in_run [OF c1 reg(5) that] have "settled st2 p \<noteq> []" by (simp add: st2)
      with once show ?thesis by (cases "settled st2 p") simp_all
    qed
    {
      assume u: "settled st2 p = []"
      note tr = pending_transitions [OF c2 t2 u]
      from tr(5) show "map_get (pendingCommands st2) cid = Some p" .
      from tr(6) show "(cid, p) \<in> set (timers st2)" .
      from tr(1) show "settled (step st2 (Message (CommandResponse cid None res))) p = [Resolve res]" .
      from tr(3) show "settled (step st2 Closed) p = [Reject ConnectionClosed]" .
      from tr(4) show "settled (step st2 (Timeout cid p)) p = [Reject TimedOut]" .
      show "settled (step st2 (Message (CommandResponse cid (Some e) res))) p
                      = [Reject (ResponseError e)]" if "e \<noteq> []"
        using that by (rule tr(2))
    }
  }
qed

lemma connected_example:
  "run [ConnectionUp] start
     = \<lparr>connected = True, wsPresent = True, wsOpen = True, commandId = 1, pendingCommands = [],
        timers = [], promiseCount = 0, settled = (\<lambda>p. []), sent = []\<rparr>"
  by (simp add: run_def start_def onConnected_def)

lemma call_example:
  "sendCommand ''ping'' (run [ConnectionUp] start)
     = (0, \<lparr>connected = True, wsPresent = True, wsOpen = True, commandId = 2,
            pendingCommands = [(1, 0)], timers = [(1, 0)], promiseCount = 1,
            settled = (\<lambda>p. []), sent = [(1, ''ping'')]\<rparr>)"
  by (simp add: connected_example sendCommand_def map_set_def Let_def)

lemma closing_example:
  "run [ConnectionUp, Closing] start
     = \<lparr>connected = True, wsPresent = True, wsOpen = False, commandId = 1, pendingCommands = [],
        timers = [], promiseCount = 0, settled = (\<lambda>p. []), sent = []\<rparr>"
  by (simp add: run_def start_def onConnected_def)

theorem sendCommand_paths_witness:
  "settled (snd (sendCommand ''ping'' start)) 0 = [Reject NotConnected]
   \<and> pendingCommands (snd (sendCommand ''ping'' start)) = []
   \<and> map_get (pendingCommands (snd (sendCommand ''ping'' (run [ConnectionUp] start)))) 1 = Some 0
   \<and> length (settled (run [Timeout 1 0] (snd (sendCommand ''ping'' (run [ConnectionUp] start)))) 0) = 1
   \<and> settled (step (snd (sendCommand ''ping'' (run [ConnectionUp] start)))
         (Message (CommandResponse 1 None ''pong''))) 0 = [Resolve ''pong'']
   \<and> settled (step (snd (sendCommand ''ping'' (run [ConnectionUp] start)))
         (Message (CommandResponse 1 (Some ''boom'') []))) 0 = [Reject (ResponseError ''boom'')]
   \<and> settled (step (snd (sendCommand ''ping'' (run [ConnectionUp] start))) Closed) 0
       = [Reject ConnectionClosed]
   \<and> settled (step (snd (sendCommand ''ping'' (run [ConnectionUp] start))) (Timeout 1 0)) 0
       = [Reject TimedOut]
   \<and> settled (snd (sendCommand ''ping'' (run [ConnectionUp, Closing] start))) 0
       = [Reject SendFailed]
   \<and> map_get (pendingCommands (snd (sendCommand ''ping'' (run [ConnectionUp, Closing] start)))) 1
       = Some 0"
proof -
  note off = sendCommand_paths [OF refl refl refl refl refl,
      where before = "[]" and command = "''ping''" and rest = "[]"]
  note on1 = sendCommand_paths [OF refl refl refl refl refl,
      where before = "[ConnectionUp]" and command = "''ping''" and rest = "[Timeout 1 0]"]
  note on2 = sendCommand_paths [OF refl refl refl refl refl,
      where before = "[ConnectionUp]" and command = "''ping''" and rest = "[]"
        and res = "''pong''" and e = "''boom''"]
  note on3 = sendCommand_paths [OF refl refl refl refl refl,
      where before = "[ConnectionUp]" and command = "''ping''" and rest = "[]"
        and res = "[]" and e = "''boom''"]
  note half = sendCommand_paths [OF refl refl refl refl refl,
      where before = "[ConnectionUp, Closing]" and command = "''ping''" and rest = "[]"]
  have s0: "run [] start = start" by (simp add: run_def)
  have off': "\<not> (connected start \<and> wsPresent start)" by (simp add: start_def)
  have on': "connected (run [ConnectionUp] start) \<and> wsPresent (run [ConnectionUp] start)
      \<and> wsOpen (run [ConnectionUp] start)"
    by (simp add: connected_example)
  have half': "connected (run [ConnectionUp, Closing] start)
      \<and> wsPresent (run [ConnectionUp, Closing] start)
      \<and> \<not> wsOpen (run [ConnectionUp, Closing] start)"
    by (simp add: closing_example)
  have ids: "commandId (run [ConnectionUp] start) = 1"
    "fst (sendCommand ''ping'' (run [ConnectionUp] start)) = 0"
    by (simp add: connected_example) (simp add: call_example)
  have ids': "commandId (run [ConnectionUp, Closing] start) = 1"
    "fst (sendCommand ''ping'' (run [ConnectionUp, Closing] start)) = 0"
    by (simp add: closing_example) (simp add: closing_example sendCommand_def settle_def Let_def)
  have id0: "fst (sendCommand ''ping'' start) = 0"
    by (simp add: sendCommand_def start_def settle_def Let_def)
  have unsettled: "settled (snd (sendCommand ''ping'' (run [ConnectionUp] start))) 0 = []"
    by (simp add: call_example)
  from off off' have a: "settled (snd (sendCommand ''ping'' start)) 0 = [Reject NotConnected]"
    "pendingCommands (snd (sendCommand ''ping'' start)) = []"
    by (simp_all add: s0 id0) (simp add: start_def)
  from on1 on' have b: "map_get (pendingCommands (snd (sendCommand ''ping'' (run [ConnectionUp] start)))) 1 = Some 0"
    "length (settled (run [Timeout 1 0] (snd (sendCommand ''ping'' (run [ConnectionUp] start)))) 0) = 1"
    by (simp_all add: ids)
  have r0: "run [] (snd (sendCommand ''ping'' (run [ConnectionUp] start)))
      = snd (sendCommand ''ping'' (run [ConnectionUp] start))" by (simp add: run_def)
  from on2 on' unsettled have c: "settled (step (snd (sendCommand ''ping'' (run [ConnectionUp] start)))
         (Message (CommandResponse 1 None ''pong''))) 0 = [Resolve ''pong'']"
    "settled (step (snd (sendCommand ''ping'' (run [ConnectionUp] start))) Closed) 0
       = [Reject ConnectionClosed]"
    "settled (step (snd (sendCommand ''ping'' (run [ConnectionUp] start))) (Timeout 1 0)) 0
       = [Reject TimedOut]"
    by (simp_all add: ids r0 del: step.simps)
  from on3 on' unsettled have d: "settled (step (snd (sendCommand ''ping'' (run [ConnectionUp] start)))
         (Message (CommandResponse 1 (Some ''boom'') []))) 0 = [Reject (ResponseError ''boom'')]"
    by (simp add: ids r0 del: step.simps)
  from half half' have e: "settled (snd (sendCommand ''ping'' (run [ConnectionUp, Closing] start))) 0
       = [Reject SendFailed]"
    "map_get (pendingCommands (snd (sendCommand ''ping'' (run [ConnectionUp, Closing] start)))) 1
       = Some 0"
    by (simp_all add: ids')
  from a b c d e show ?thesis by simp
qed

text \<open>
  C10 says that every call of \<open>sendCommand\<close> settles its promise exactly once
  and removes its entry of \<open>pendingCommands\<close>, by a response, by the close of the
  connection or by the 30 second timer, and that a call made while not connected
  registers no entry. The code, called after the connection has been made and has
  started to close, while \<open>connected\<close> is still set, stores the callback under
  id 1, and \<open>ws.send\<close> throws: the promise of the call, which is promise 0,
  the first one created, is rejected with the exception of
  \<open>ws.send\<close>, its entry stays in \<open>pendingCommands\<close>, nothing is sent and no
  timer is started. Only the \<open>close\<close> event removes the entry, and it calls
  \<open>reject\<close> of the promise a second time.
\<close>

theorem sendCommand_send_throws:
  "connected (run [ConnectionUp, Closing] start)
   \<and> wsPresent (run [ConnectionUp, Closing] start)
   \<and> \<not> wsOpen (run [ConnectionUp, Closing] start)
   \<and> promiseCount (run [ConnectionUp, Closing, Call ''ping''] start) = 1
   \<and> settled (run [ConnectionUp, Closing, Call ''ping''] start) 0 = [Reject SendFailed]
   \<and> pendingCommands (run [ConnectionUp, Closing, Call ''ping''] start) = [(1, 0)]
   \<and> timers (run [ConnectionUp, Closing, Call ''ping''] start) = []
   \<and> sent (run [ConnectionUp, Closing, Call ''ping''] start) = []
   \<and> settled (run [ConnectionUp, Closing, Call ''ping'', Closed] start) 0
       = [Reject SendFailed, Reject ConnectionClosed]
   \<and> pendingCommands (run [ConnectionUp, Closing, Call ''ping'', Closed] start) = []"
  by (simp add: run_def start_def onConnected_def sendCommand_def settle_def map_set_def
        onClosed_def map_delete_def map_has_def Let_def)

end
